theory Spec2Isabelle
  imports Main "HOL-Library.Char_ord" "HOL-Library.List_Lexorder"
begin

section \<open>Python strings\<close>

text \<open>
  A Python \<open>str\<close> is modelled as a \<open>string\<close>: the characters are the code points
  below 256.  The functions of this section are the \<open>str\<close> methods that \<open>sync.py\<close>
  and the library functions it calls use.

  \<open>sync.py\<close> builds on \<open>urllib.parse\<close>, \<open>pathlib\<close> and, through \<open>urlsplit\<close>, on
  \<open>ipaddress\<close>.  These are modelled after the standard library of CPython 3.12, with
  \<open>pathlib\<close> on a POSIX system, function by function and under the names they have
  there (without the leading underscore).
\<close>

text \<open>\<open>s.find(c)\<close> and \<open>s.find(c, start)\<close> for a single character: the index of the
  first occurrence (at or after \<open>start\<close>), or \<open>-1\<close>.\<close>

definition find_from :: "char \<Rightarrow> nat \<Rightarrow> string \<Rightarrow> int" where
  "find_from c start s =
     (if c \<in> set (drop start s)
      then int (start + length (takeWhile (\<lambda>x. x \<noteq> c) (drop start s)))
      else - 1)"

definition find_str :: "char \<Rightarrow> string \<Rightarrow> int" where
  "find_str c s = find_from c 0 s"

text \<open>\<open>s.rfind(c)\<close>: the index of the last occurrence, or \<open>-1\<close>.\<close>

definition rfind :: "char \<Rightarrow> string \<Rightarrow> int" where
  "rfind c s =
     (if c \<in> set s
      then int (length s) - 1 - int (length (takeWhile (\<lambda>x. x \<noteq> c) (rev s)))
      else - 1)"

text \<open>\<open>s.split(c)\<close>: the pieces between the occurrences of \<open>c\<close>; never empty.\<close>

fun split_str :: "char \<Rightarrow> string \<Rightarrow> string list" where
  "split_str c [] = [[]]"
| "split_str c (x # xs) =
     (if x = c then [] # split_str c xs
      else (case split_str c xs of [] \<Rightarrow> [[x]] | y # ys \<Rightarrow> (x # y) # ys))"

text \<open>\<open>s.split(c, 1)\<close> when \<open>c\<close> occurs in \<open>s\<close>, and the outer components of
  \<open>s.partition(c)\<close>: the text before the first \<open>c\<close> and the text after it.\<close>

definition split1 :: "char \<Rightarrow> string \<Rightarrow> string \<times> string" where
  "split1 c s = (takeWhile (\<lambda>x. x \<noteq> c) s, drop 1 (dropWhile (\<lambda>x. x \<noteq> c) s))"

text \<open>\<open>s.rpartition(c)[2]\<close>: the text after the last \<open>c\<close>, all of \<open>s\<close> without one.\<close>

definition rpartition_tail :: "char \<Rightarrow> string \<Rightarrow> string" where
  "rpartition_tail c s = rev (takeWhile (\<lambda>x. x \<noteq> c) (rev s))"

text \<open>\<open>sep.join(xs)\<close>.\<close>

fun join :: "string \<Rightarrow> string list \<Rightarrow> string" where
  "join sep [] = []"
| "join sep [x] = x"
| "join sep (x # y # ys) = x @ sep @ join sep (y # ys)"

text \<open>\<open>s.lstrip(c)\<close> and \<open>s.strip(c)\<close> for a single character.\<close>

definition lstrip :: "char \<Rightarrow> string \<Rightarrow> string" where
  "lstrip c s = dropWhile (\<lambda>x. x = c) s"

definition strip :: "char \<Rightarrow> string \<Rightarrow> string" where
  "strip c s = rev (lstrip c (rev (lstrip c s)))"

definition startswith :: "string \<Rightarrow> string \<Rightarrow> bool" where
  "startswith s p = (take (length p) s = p)"

definition endswith :: "string \<Rightarrow> string \<Rightarrow> bool" where
  "endswith s p = (length p \<le> length s \<and> drop (length s - length p) s = p)"

text \<open>\<open>s.replace(old, new)\<close>: every occurrence of \<open>old\<close>, found from the left and
  not overlapping, becomes \<open>new\<close>.  With an empty \<open>old\<close> Python puts \<open>new\<close> before
  every character and at the end.\<close>

function replace :: "string \<Rightarrow> string \<Rightarrow> string \<Rightarrow> string" where
  "replace old new s =
     (if old = [] then new @ concat (map (\<lambda>c. c # new) s)
      else if s = [] then []
      else if take (length old) s = old then new @ replace old new (drop (length old) s)
      else hd s # replace old new (tl s))"
  by pat_completeness auto
termination
  by (relation "measure (\<lambda>(old, new, s). length s)") auto

declare replace.simps [simp del]

definition is_ascii_alpha :: "char \<Rightarrow> bool" where
  "is_ascii_alpha c =
     (let n = (of_char c :: nat) in (65 \<le> n \<and> n \<le> 90) \<or> (97 \<le> n \<and> n \<le> 122))"

definition is_ascii_digit :: "char \<Rightarrow> bool" where
  "is_ascii_digit c = (let n = (of_char c :: nat) in 48 \<le> n \<and> n \<le> 57)"

text \<open>\<open>str.lower\<close>, one character at a time; it is applied to scheme characters only,
  which are ASCII.\<close>

definition lower_char :: "char \<Rightarrow> char" where
  "lower_char c =
     (let n = (of_char c :: nat) in if 65 \<le> n \<and> n \<le> 90 then char_of (n + 32) else c)"

definition lower :: "string \<Rightarrow> string" where
  "lower s = map lower_char s"

section \<open>The library: \<open>ipaddress\<close>, as far as \<open>urllib.parse\<close> calls it\<close>

text \<open>\<open>IPv4Address._parse_octet\<close> accepts a decimal octet: one to three ASCII digits,
  no leading zero, at most 255.\<close>

fun int_of_digits :: "nat \<Rightarrow> string \<Rightarrow> nat" where
  "int_of_digits acc [] = acc"
| "int_of_digits acc (c # cs) = int_of_digits (10 * acc + (of_char c - 48)) cs"

definition parse_octet_ok :: "string \<Rightarrow> bool" where
  "parse_octet_ok octet_str =
     (if octet_str = [] then False
      else if \<not> list_all is_ascii_digit octet_str then False
      else if length octet_str > 3 then False
      else if octet_str \<noteq> ''0'' \<and> hd octet_str = CHR ''0'' then False
      else if int_of_digits 0 octet_str > 255 then False
      else True)"

text \<open>\<open>IPv4Address(s)\<close> does not raise.\<close>

definition IPv4Address_ok :: "string \<Rightarrow> bool" where
  "IPv4Address_ok addr_str =
     (if CHR ''/'' \<in> set addr_str then False
      else if addr_str = [] then False
      else let octets = split_str CHR ''.'' addr_str
           in if length octets \<noteq> 4 then False else list_all parse_octet_ok octets)"

definition HEX_DIGITS :: string where
  "HEX_DIGITS = ''0123456789ABCDEFabcdef''"

text \<open>\<open>IPv6Address._parse_hextet\<close>: hex digits only, at most four, and not empty
  (\<open>int('', 16)\<close> raises).\<close>

definition parse_hextet_ok :: "string \<Rightarrow> bool" where
  "parse_hextet_ok hextet_str =
     (if \<not> list_all (\<lambda>c. c \<in> set HEX_DIGITS) hextet_str then False
      else if length hextet_str > 4 then False
      else hextet_str \<noteq> [])"

text \<open>\<open>IPv6Address._ip_int_from_string\<close> does not raise.  An IPv4 suffix is replaced
  by two hextets, which are valid when the suffix is.\<close>

definition IPv6_ip_int_from_string_ok :: "string \<Rightarrow> bool" where
  "IPv6_ip_int_from_string_ok ip_str =
     (if ip_str = [] then False
      else let parts = split_str CHR '':'' ip_str in
        if length parts < 3 then False
        else if CHR ''.'' \<in> set (last parts) \<and> \<not> IPv4Address_ok (last parts) then False
        else let parts = (if CHR ''.'' \<in> set (last parts)
                          then butlast parts @ [''0'', ''0''] else parts);
                 n = length parts in
          if n > 9 then False
          else let skips = filter (\<lambda>i. parts ! i = []) [1 ..< n - 1] in
            if length skips > 1 then False
            else if skips \<noteq> [] then
              let skip_index = hd skips;
                  parts_hi = (if hd parts = [] then skip_index - 1 else skip_index);
                  parts_lo = (if last parts = [] then n - skip_index - 2
                              else n - skip_index - 1)
              in if hd parts = [] \<and> parts_hi \<noteq> 0 then False
                 else if last parts = [] \<and> parts_lo \<noteq> 0 then False
                 else if parts_hi + parts_lo > 7 then False
                 else list_all parse_hextet_ok (take parts_hi parts)
                    \<and> list_all parse_hextet_ok (drop (n - parts_lo) parts)
            else
              if n \<noteq> 8 then False
              else if hd parts = [] then False
              else if last parts = [] then False
              else list_all parse_hextet_ok parts)"

text \<open>\<open>IPv6Address(s)\<close> does not raise: no \<open>/\<close>, a scope id after \<open>%\<close> that is
  neither empty nor contains another \<open>%\<close>, and a valid address before it.\<close>

definition IPv6Address_ok :: "string \<Rightarrow> bool" where
  "IPv6Address_ok addr_str =
     (if CHR ''/'' \<in> set addr_str then False
      else let (addr, scope_id) = split1 CHR ''%'' addr_str in
        if CHR ''%'' \<in> set addr_str \<and> (scope_id = [] \<or> CHR ''%'' \<in> set scope_id) then False
        else IPv6_ip_int_from_string_ok addr)"

section \<open>The library: \<open>urllib.parse\<close>\<close>

text \<open>The exceptions that can leave the functions modelled here; \<open>URLError\<close> stands
  for every exception of \<open>urlopen(url).read()\<close> other than \<open>IncompleteRead\<close>.\<close>

datatype error = ValueError | TypeError | KeyError | AttributeError | UnboundLocalError
  | UnicodeDecodeError | JSONDecodeError | URLError

definition uses_netloc :: "string list" where
  "uses_netloc = ['''', ''ftp'', ''http'', ''gopher'', ''nntp'', ''telnet'',
     ''imap'', ''wais'', ''file'', ''mms'', ''https'', ''shttp'',
     ''snews'', ''prospero'', ''rtsp'', ''rtsps'', ''rtspu'', ''rsync'',
     ''svn'', ''svn+ssh'', ''sftp'', ''nfs'', ''git'', ''git+ssh'',
     ''ws'', ''wss'', ''itms-services'']"

definition uses_params :: "string list" where
  "uses_params = ['''', ''ftp'', ''hdl'', ''prospero'', ''http'', ''imap'',
     ''https'', ''shttp'', ''rtsp'', ''rtsps'', ''rtspu'', ''sip'',
     ''sips'', ''mms'', ''sftp'', ''tel'']"

definition scheme_chars :: string where
  "scheme_chars = ''abcdefghijklmnopqrstuvwxyzABCDEFGHIJKLMNOPQRSTUVWXYZ0123456789+-.''"

text \<open>\<open>_WHATWG_C0_CONTROL_OR_SPACE\<close>: the code points 0 to 32.\<close>

definition WHATWG_C0_CONTROL_OR_SPACE :: "char \<Rightarrow> bool" where
  "WHATWG_C0_CONTROL_OR_SPACE c = ((of_char c :: nat) \<le> 32)"

definition UNSAFE_URL_BYTES_TO_REMOVE :: string where
  "UNSAFE_URL_BYTES_TO_REMOVE = [CHR 0x09, CHR 0x0D, CHR 0x0A]"

text \<open>The named tuple \<open>ParseResult\<close>.\<close>

record ParseResult =
  scheme :: string
  netloc :: string
  path :: string
  params :: string
  query :: string
  fragment :: string

text \<open>\<open>_splitparams\<close>.  \<open>urlparse\<close> calls it on a text with a \<open>;\<close> only; on a text
  with neither \<open>/\<close> nor \<open>;\<close> the index is \<open>-1\<close> and the slices are \<open>url[:-1]\<close> and
  \<open>url[0:]\<close>.\<close>

definition splitparams :: "string \<Rightarrow> string \<times> string" where
  "splitparams url =
     (let i = (if CHR ''/'' \<in> set url
               then find_from CHR '';'' (nat (rfind CHR ''/'' url)) url
               else find_str CHR '';'' url)
      in if CHR ''/'' \<in> set url \<and> i < 0 then (url, [])
         else if i < 0 then (butlast url, url)
         else (take (nat i) url, drop (nat i + 1) url))"

text \<open>\<open>_splitnetloc\<close>: the text from \<open>start\<close> to the first of \<open>/ ? #\<close>, and the rest.\<close>

definition splitnetloc :: "string \<Rightarrow> nat \<Rightarrow> string \<times> string" where
  "splitnetloc url start =
     (let delim = fold (\<lambda>c delim. let wdelim = find_from c start url
                                  in if wdelim \<ge> 0 then min delim wdelim else delim)
                       ''/?#'' (int (length url))
      in (take (nat delim - start) (drop start url), drop (nat delim) url))"

text \<open>\<open>_check_bracketed_host\<close> does not raise: an IPvFuture literal matching
  \<open>\Av[a-fA-F0-9]+\..+\Z\<close>, or an IPv6 address.  \<open>ip_address\<close> tries IPv4 first, and
  an IPv4 address in brackets is refused.\<close>

definition check_bracketed_host :: "string \<Rightarrow> bool" where
  "check_bracketed_host hostname =
     (if startswith hostname ''v''
      then (let digits = takeWhile (\<lambda>c. c \<in> set ''abcdefABCDEF0123456789'') (drop 1 hostname);
                rest = dropWhile (\<lambda>c. c \<in> set ''abcdefABCDEF0123456789'') (drop 1 hostname)
            in digits \<noteq> [] \<and> take 1 rest = ''.'' \<and> drop 1 rest \<noteq> []
               \<and> CHR 0x0A \<notin> set (drop 1 rest))
      else if IPv4Address_ok hostname then False
      else IPv6Address_ok hostname)"

text \<open>\<open>_check_bracketed_netloc\<close> does not raise.\<close>

definition check_bracketed_netloc :: "string \<Rightarrow> bool" where
  "check_bracketed_netloc nl =
     (let hostname_and_port = rpartition_tail CHR ''@'' nl;
          (before_bracket, bracketed) = split1 CHR ''['' hostname_and_port
      in if CHR ''['' \<in> set hostname_and_port then
           if before_bracket \<noteq> [] then False
           else let (hostname, port) = split1 CHR '']'' bracketed
                in if port \<noteq> [] \<and> \<not> startswith port '':'' then False
                   else check_bracketed_host hostname
         else check_bracketed_host (fst (split1 CHR '':'' hostname_and_port)))"

text \<open>
  \<open>_checknetloc\<close> returns at once for an ASCII netloc.  For another one it raises when
  NFKC normalisation brings one of \<open>/ ? # @ :\<close> into it.  The characters whose
  compatibility decomposition contains one of these five lie above U+2000, so over the
  code points of this model (below 256) the check always passes.
\<close>

definition checknetloc :: "string \<Rightarrow> bool" where
  "checknetloc nl = True"

text \<open>\<open>urlsplit(url)\<close>, with the default \<open>scheme=''\<close> and \<open>allow_fragments=True\<close>.\<close>

definition urlsplit :: "string \<Rightarrow> error + (string \<times> string \<times> string \<times> string \<times> string)" where
  "urlsplit url0 =
     (let url = dropWhile WHATWG_C0_CONTROL_OR_SPACE url0;
          url = filter (\<lambda>c. c \<notin> set UNSAFE_URL_BYTES_TO_REMOVE) url;
          i = find_str CHR '':'' url;
          (scheme, url) =
            (if i > 0 \<and> is_ascii_alpha (hd url)
                \<and> list_all (\<lambda>c. c \<in> set scheme_chars) (take (nat i) url)
             then (lower (take (nat i) url), drop (nat i + 1) url)
             else ([], url));
          (netloc, url) = (if take 2 url = ''//'' then splitnetloc url 2 else ([], url))
      in if (CHR ''['' \<in> set netloc \<and> CHR '']'' \<notin> set netloc)
            \<or> (CHR '']'' \<in> set netloc \<and> CHR ''['' \<notin> set netloc)
         then Inl ValueError
         else if CHR ''['' \<in> set netloc \<and> CHR '']'' \<in> set netloc
                 \<and> \<not> check_bracketed_netloc netloc
         then Inl ValueError
         else
           let (url, fragment) = (if CHR ''#'' \<in> set url then split1 CHR ''#'' url else (url, []));
               (url, query) = (if CHR ''?'' \<in> set url then split1 CHR ''?'' url else (url, []))
           in if \<not> checknetloc netloc then Inl ValueError
              else Inr (scheme, netloc, url, query, fragment))"

text \<open>\<open>urlparse(url)\<close>.\<close>

definition urlparse :: "string \<Rightarrow> error + ParseResult" where
  "urlparse url0 =
     (case urlsplit url0 of
        Inl e \<Rightarrow> Inl e
      | Inr splitresult \<Rightarrow>
          let (scheme, netloc, url, query, fragment) = splitresult;
              (url, params) = (if scheme \<in> set uses_params \<and> CHR '';'' \<in> set url
                               then splitparams url else (url, []))
          in Inr \<lparr>scheme = scheme, netloc = netloc, path = url, params = params,
                  query = query, fragment = fragment\<rparr>)"

text \<open>\<open>urlunsplit\<close> and \<open>urlunparse\<close>.\<close>

definition urlunsplit :: "string \<times> string \<times> string \<times> string \<times> string \<Rightarrow> string" where
  "urlunsplit components =
     (let (scheme, netloc, url, query, fragment) = components;
          url = (if netloc \<noteq> [] \<or> (scheme \<noteq> [] \<and> scheme \<in> set uses_netloc \<and> take 2 url \<noteq> ''//'')
                   then ''//'' @ netloc @ (if url \<noteq> [] \<and> take 1 url \<noteq> ''/'' then ''/'' @ url else url)
                   else url);
            url = (if scheme \<noteq> [] then scheme @ '':'' @ url else url);
            url = (if query \<noteq> [] then url @ ''?'' @ query else url);
            url = (if fragment \<noteq> [] then url @ ''#'' @ fragment else url)
        in url)"

definition urlunparse :: "ParseResult \<Rightarrow> string" where
  "urlunparse components =
     (let url = (if params components \<noteq> []
                 then path components @ '';'' @ params components else path components)
      in urlunsplit (scheme components, netloc components, url, query components,
                     fragment components))"

section \<open>The library: \<open>pathlib\<close>\<close>

text \<open>\<open>posixpath.splitroot\<close>, without the drive, which is empty on POSIX: the root is
  empty, one slash, or two slashes when the path starts with exactly two.\<close>

definition splitroot :: "string \<Rightarrow> string \<times> string" where
  "splitroot p =
     (if take 1 p \<noteq> ''/'' then ([], p)
      else if take 1 (drop 1 p) \<noteq> ''/'' \<or> take 1 (drop 2 p) = ''/'' then (''/'', drop 1 p)
      else (take 2 p, drop 2 p))"

text \<open>\<open>list(Path(p).parts)\<close> on POSIX: the root, when there is one, then the segments
  that are neither empty nor \<open>.\<close>.\<close>

definition Path_parts :: "string \<Rightarrow> string list" where
  "Path_parts p =
     (if p = [] then []
      else let (root, rel) = splitroot p;
               parsed = filter (\<lambda>x. x \<noteq> [] \<and> x \<noteq> ''.'') (split_str CHR ''/'' rel)
           in if root \<noteq> [] then root # parsed else parsed)"

section \<open>\<open>sync.py\<close>: the canonicalizer\<close>

text \<open>The set \<open>UNWANTED_URL_PATH_PARTS\<close>, listed in the order of the source.  Python
  iterates a set in an order of its own; \<open>remove_unwanted_order\<close> below shows that the
  order does not matter.\<close>

definition UNWANTED_URL_PATH_PARTS :: "string list" where
  "UNWANTED_URL_PATH_PARTS =
     [''atom'', ''feed'', ''index.html'', ''index.php'', ''index.php5'', ''rss'', ''rss.xml'']"

text \<open>The inner loop \<open>while unwanted in path: path.remove(unwanted)\<close>;
  \<open>list.remove\<close> deletes the first occurrence.\<close>

function remove_while :: "string \<Rightarrow> string list \<Rightarrow> string list" where
  "remove_while unwanted pth =
     (if unwanted \<in> set pth then remove_while unwanted (remove1 unwanted pth) else pth)"
  by pat_completeness auto
termination
  by (relation "measure (\<lambda>(unwanted, pth). length pth)")
     (auto simp: length_remove1 dest: length_pos_if_in_set)

declare remove_while.simps [simp del]

text \<open>The outer loop \<open>for unwanted in UNWANTED_URL_PATH_PARTS\<close>, over a given order.\<close>

definition remove_unwanted :: "string list \<Rightarrow> string list \<Rightarrow> string list" where
  "remove_unwanted order pth = fold remove_while order pth"

text \<open>Lines 95 to 99: the local variable \<open>path\<close> after the loop, joined and
  stripped.\<close>

definition sanitize_path :: "string \<Rightarrow> string" where
  "sanitize_path p =
     (let path = Path_parts p;
          path = remove_unwanted UNWANTED_URL_PATH_PARTS path
      in strip CHR ''/'' (join ''/'' path))"

text \<open>Line 102: the query chosen for a sanitized path.\<close>

definition sanitize_query :: "string \<Rightarrow> string" where
  "sanitize_query p = (if endswith p ''rss.php'' then ''mode=links&do=rss'' else ''do=rss'')"

text \<open>\<open>sanitize_url\<close>.  A \<open>ValueError\<close> of \<open>urlparse\<close> is not caught.\<close>

definition sanitize_url :: "string \<Rightarrow> error + string" where
  "sanitize_url url =
     (if url = [] then Inr []
      else case urlparse url of
             Inl e \<Rightarrow> Inl e
           | Inr parts \<Rightarrow>
               let path = sanitize_path (path parts);
                   query = sanitize_query path;
                   parts = parts\<lparr>path := (if path = [] then ''/'' else path), query := query\<rparr>
               in Inr (urlunparse parts))"

section \<open>\<open>sync.py\<close>: the feed sources\<close>

text \<open>The value of \<open>json.loads\<close>.  Of a number only its being zero matters here.\<close>

datatype json = JNull | JBool bool | JNumber int | JString string
  | JArray "json list" | JObject "(string \<times> json) list"

text \<open>Python's truth value of a decoded JSON value (\<open>if not url\<close>).\<close>

fun truthy :: "json \<Rightarrow> bool" where
  "truthy JNull = False"
| "truthy (JBool b) = b"
| "truthy (JNumber n) = (n \<noteq> 0)"
| "truthy (JString s) = (s \<noteq> [])"
| "truthy (JArray xs) = (xs \<noteq> [])"
| "truthy (JObject kvs) = (kvs \<noteq> [])"

text \<open>\<open>sanitize_url\<close> on whatever the payload holds: a falsy value gives \<open>""\<close>, a
  string goes through \<open>sanitize_url\<close>, and on any other value \<open>urlparse\<close> raises
  \<open>AttributeError\<close> (it calls \<open>decode\<close> on it).\<close>

definition sanitize_value :: "json \<Rightarrow> error + string" where
  "sanitize_value v =
     (if \<not> truthy v then Inr []
      else case v of JString url \<Rightarrow> sanitize_url url | _ \<Rightarrow> Inl AttributeError)"

text \<open>\<open>for feed in json.loads(data)\<close>: a list gives its items, a dict its keys, a
  string its characters; nothing else can be iterated.\<close>

definition iterate :: "json \<Rightarrow> error + json list" where
  "iterate v =
     (case v of
        JArray xs \<Rightarrow> Inr xs
      | JObject kvs \<Rightarrow> Inr (map JString (rev (remdups (rev (map fst kvs)))))
      | JString s \<Rightarrow> Inr (map (\<lambda>c. JString [c]) s)
      | _ \<Rightarrow> Inl TypeError)"

text \<open>\<open>feed["url"]\<close>: the last value of the key in a dict, \<open>KeyError\<close> without the
  key, \<open>TypeError\<close> on anything that is not a dict.\<close>

definition get_url :: "json \<Rightarrow> error + json" where
  "get_url feed =
     (case feed of
        JObject kvs \<Rightarrow> (case map_of (rev kvs) ''url'' of None \<Rightarrow> Inl KeyError | Some v \<Rightarrow> Inr v)
      | _ \<Rightarrow> Inl TypeError)"

text \<open>The set comprehension \<open>{sanitize_url(url) for url in urls}\<close> over the lazy
  \<open>urls\<close>: each item is extracted by \<open>get\<close> and sanitized in turn, and the first
  exception ends it.\<close>

fun sanitize_all :: "('a \<Rightarrow> error + json) \<Rightarrow> 'a list \<Rightarrow> error + string set" where
  "sanitize_all get [] = Inr {}"
| "sanitize_all get (x # xs) =
     (case get x of
        Inl e \<Rightarrow> Inl e
      | Inr url \<Rightarrow>
          (case sanitize_value url of
             Inl e \<Rightarrow> Inl e
           | Inr u \<Rightarrow> (case sanitize_all get xs of Inl e \<Rightarrow> Inl e | Inr us \<Rightarrow> Inr (insert u us))))"

text \<open>\<open>re.findall(r'xmlUrl="([^"]+)"', text)\<close>: from the left, each \<open>xmlUrl="\<close>
  followed by one or more characters other than the quote and then by a quote gives
  these characters; the search goes on after the closing quote.\<close>

function findall_xmlUrl :: "string \<Rightarrow> string list" where
  "findall_xmlUrl s =
     (if s = [] then []
      else if startswith s (''xmlUrl='' @ [CHR 0x22])
              \<and> takeWhile (\<lambda>c. c \<noteq> CHR 0x22) (drop 8 s) \<noteq> []
              \<and> dropWhile (\<lambda>c. c \<noteq> CHR 0x22) (drop 8 s) \<noteq> []
      then takeWhile (\<lambda>c. c \<noteq> CHR 0x22) (drop 8 s)
             # findall_xmlUrl (drop 1 (dropWhile (\<lambda>c. c \<noteq> CHR 0x22) (drop 8 s)))
      else findall_xmlUrl (tl s))"
  by pat_completeness auto
termination
proof (relation "measure length")
  show "wf (measure length)" by simp
next
  fix s :: string
  assume "s \<noteq> []"
  have "length (dropWhile (\<lambda>c. c \<noteq> CHR 0x22) (drop 8 s)) \<le> length (drop 8 s)"
    by (rule length_dropWhile_le)
  then show "(drop 1 (dropWhile (\<lambda>c. c \<noteq> CHR 0x22) (drop 8 s)), s) \<in> measure length"
    using \<open>s \<noteq> []\<close> by (cases s) auto
next
  fix s :: string
  assume "s \<noteq> []"
  then show "(tl s, s) \<in> measure length" by (cases s) auto
qed

declare findall_xmlUrl.simps [simp del]

text \<open>The outcome of \<open>urlopen(url).read()\<close>: the payload, the exception
  \<open>http.client.IncompleteRead\<close> carrying the bytes read so far, or another
  exception.\<close>

datatype read_result = Read string | IncompleteRead string | Raised error

text \<open>Lines 114 to 119 of \<open>get_dynamic_feeds\<close>: what is done with \<open>data\<close>.  The
  decoders \<open>json.loads\<close> and \<open>bytes.decode\<close> are parameters.  A \<open>kind\<close> that no
  \<open>case\<close> matches leaves \<open>urls\<close> unbound.\<close>

definition parse_feeds ::
  "(string \<Rightarrow> error + json) \<Rightarrow> (string \<Rightarrow> error + string) \<Rightarrow> string \<Rightarrow> string
     \<Rightarrow> error + string set" where
  "parse_feeds json_loads decode kind data =
     (if kind = ''json'' then
        (case json_loads data of
           Inl e \<Rightarrow> Inl e
         | Inr v \<Rightarrow> (case iterate v of Inl e \<Rightarrow> Inl e | Inr feeds \<Rightarrow> sanitize_all get_url feeds))
      else if kind = ''opml'' then
        (case decode data of
           Inl e \<Rightarrow> Inl e
         | Inr text \<Rightarrow> sanitize_all (\<lambda>url. Inr (JString url)) (findall_xmlUrl text))
      else Inl UnboundLocalError)"

text \<open>\<open>get_dynamic_feeds\<close>; the network is the function \<open>urlopen_read\<close>.\<close>

definition get_dynamic_feeds ::
  "(string \<Rightarrow> error + json) \<Rightarrow> (string \<Rightarrow> error + string) \<Rightarrow> (string \<Rightarrow> read_result)
     \<Rightarrow> string \<Rightarrow> string \<Rightarrow> error + string set" where
  "get_dynamic_feeds json_loads decode urlopen_read kind url =
     (case urlopen_read url of
        Raised e \<Rightarrow> Inl e
      | Read data \<Rightarrow> parse_feeds json_loads decode kind data
      | IncompleteRead partial \<Rightarrow> parse_feeds json_loads decode kind partial)"

section \<open>\<open>sync.py\<close>: the reconciler\<close>

text \<open>The decimal text of a number, as \<open>f"{new}"\<close> gives it.\<close>

function str_of_nat :: "nat \<Rightarrow> string" where
  "str_of_nat n =
     (if n < 10 then [char_of (48 + n)]
      else str_of_nat (n div 10) @ [char_of (48 + n mod 10)])"
  by pat_completeness auto
termination
  by (relation "measure id") auto

declare str_of_nat.simps [simp del]

text \<open>The loop \<open>for feed_url in diff\<close> over an enumeration of \<open>diff\<close>; the state is
  the lines printed so far and the counter \<open>new\<close>.\<close>

fun print_new :: "string set \<Rightarrow> string list \<Rightarrow> string list \<times> nat \<Rightarrow> string list \<times> nat" where
  "print_new current_feeds [] st = st"
| "print_new current_feeds (feed_url # rest) (out, new) =
     (if feed_url \<noteq> []
         \<and> replace ''http:'' ''https:'' feed_url \<notin> current_feeds
         \<and> replace ''https:'' ''http:'' feed_url \<notin> current_feeds
      then print_new current_feeds rest (out @ [[CHR 0x22] @ feed_url @ [CHR 0x22] @ '',''], new + 1)
      else print_new current_feeds rest (out, new))"

text \<open>\<open>main\<close>, from the sets that the loaders and the four calls of
  \<open>get_dynamic_feeds\<close> return; the result is the list of lines printed.  Python
  leaves the order in which a set is iterated open; the model takes the sorted one.\<close>

definition main :: "string set \<Rightarrow> string set \<Rightarrow> string set \<Rightarrow> string set list \<Rightarrow> string list" where
  "main current_feeds manual_feeds bad_feeds dynamic_feeds =
     (let new_feeds = fold (\<lambda>feeds new_feeds. new_feeds \<union> feeds) dynamic_feeds manual_feeds;
          diff = new_feeds - current_feeds - bad_feeds;
          (out, new) = print_new current_feeds (sorted_list_of_set diff) ([], 0)
      in out @ [''+ '' @ str_of_nat new])"

section \<open>The sanitized path\<close>

lemma filter_remove1_neq: "filter (\<lambda>x. x \<noteq> u) (remove1 u xs) = filter (\<lambda>x. x \<noteq> u) xs"
  by (induction xs) auto

lemma remove_while_filter: "remove_while u xs = filter (\<lambda>x. x \<noteq> u) xs"
proof (induction u xs rule: remove_while.induct)
  case (1 unwanted pth)
  show ?case
  proof (cases "unwanted \<in> set pth")
    case True
    then have "remove_while unwanted pth = remove_while unwanted (remove1 unwanted pth)"
      by (subst remove_while.simps) simp
    also have "\<dots> = filter (\<lambda>x. x \<noteq> unwanted) (remove1 unwanted pth)"
      using 1 True by simp
    finally show ?thesis by (simp add: filter_remove1_neq)
  next
    case False
    then have "remove_while unwanted pth = pth"
      by (subst remove_while.simps) simp
    moreover have "filter (\<lambda>x. x \<noteq> unwanted) pth = pth"
      using False by (induction pth) auto
    ultimately show ?thesis by simp
  qed
qed

lemma remove_unwanted_filter: "remove_unwanted order xs = filter (\<lambda>x. x \<notin> set order) xs"
  unfolding remove_unwanted_def
  by (induction order arbitrary: xs) (auto simp: remove_while_filter intro: filter_cong)

lemma split_str_not_Nil: "split_str c s \<noteq> []"
  by (induction s) (auto split: list.splits)

lemma split_str_no_sep: "x \<in> set (split_str c s) \<Longrightarrow> c \<notin> set x"
  by (induction s arbitrary: x) (auto split: if_splits list.splits)

lemma split_str_sep_Cons: "split_str c (c # s) = [] # split_str c s"
  by simp

lemma join_Cons: "join sep (x # xs) = (if xs = [] then x else x @ sep @ join sep xs)"
  by (cases xs) auto

lemma split_str_append_sep:
  "c \<notin> set x \<Longrightarrow> split_str c (x @ c # s) = x # split_str c s"
  by (induction x) (auto split: list.splits)

lemma split_str_no_occ: "c \<notin> set x \<Longrightarrow> split_str c x = [x]"
  by (induction x) (auto split: list.splits)

lemma split_str_join:
  "xs \<noteq> [] \<Longrightarrow> (\<And>x. x \<in> set xs \<Longrightarrow> c \<notin> set x) \<Longrightarrow> split_str c (join [c] xs) = xs"
proof (induction xs)
  case Nil then show ?case by simp
next
  case (Cons x xs)
  show ?case
  proof (cases xs)
    case Nil
    then show ?thesis using Cons.prems by (simp add: split_str_no_occ)
  next
    case (Cons y ys)
    then have "split_str c (join [c] xs) = xs" using Cons.IH Cons.prems by auto
    then show ?thesis using Cons Cons.prems(2)[of x] by (simp add: split_str_append_sep)
  qed
qed


lemma splitroot_cases:
  "splitroot p = ([], p) \<and> take 1 p \<noteq> ''/''
   \<or> (\<exists>r. splitroot p = (''/'', r) \<and> p = ''/'' @ r)
   \<or> (\<exists>r. splitroot p = (''//'', r) \<and> p = ''//'' @ r)"
proof (cases p)
  case Nil then show ?thesis by (simp add: splitroot_def)
next
  case (Cons a p')
  show ?thesis
  proof (cases p')
    case Nil then show ?thesis using Cons by (auto simp: splitroot_def)
  next
    case (Cons b p'')
    then show ?thesis using \<open>p = a # p'\<close> by (cases p'') (auto simp: splitroot_def)
  qed
qed

lemma Path_parts_eq:
  "Path_parts p = (let segs = filter (\<lambda>x. x \<noteq> [] \<and> x \<noteq> ''.'') (split_str CHR ''/'' p)
                   in if fst (splitroot p) = [] then segs else fst (splitroot p) # segs)"
proof (cases "p = []")
  case True then show ?thesis by (simp add: Path_parts_def splitroot_def)
next
  case False
  consider "splitroot p = ([], p)" "take 1 p \<noteq> ''/''"
    | r where "splitroot p = (''/'', r)" "p = ''/'' @ r"
    | r where "splitroot p = (''//'', r)" "p = ''//'' @ r"
    using splitroot_cases[of p] by blast
  then show ?thesis
  proof cases
    case 1 then show ?thesis using False by (simp add: Path_parts_def)
  next
    case 2 then show ?thesis using False by (simp add: Path_parts_def)
  next
    case 3 then show ?thesis using False by (simp add: Path_parts_def)
  qed
qed

lemma join_ends:
  "xs \<noteq> [] \<Longrightarrow> (\<And>x. x \<in> set xs \<Longrightarrow> x \<noteq> [] \<and> c \<notin> set x)
   \<Longrightarrow> join sep xs \<noteq> [] \<and> hd (join sep xs) \<noteq> c \<and> last (join sep xs) \<noteq> c"
proof (induction sep xs rule: join.induct)
  case (1 sep) then show ?case by simp
next
  case (2 sep x)
  then have "x \<noteq> []" "c \<notin> set x" by auto
  then show ?case using hd_in_set[of x] last_in_set[of x] by auto
next
  case (3 sep x y ys)
  have x: "x \<noteq> []" "c \<notin> set x" using 3(3)[of x] by auto
  have ih: "join sep (y # ys) \<noteq> [] \<and> hd (join sep (y # ys)) \<noteq> c \<and> last (join sep (y # ys)) \<noteq> c"
    using 3(1) 3(3) by simp
  show ?case using x ih hd_in_set[of x] by auto
qed

lemma strip_no_ends: "s \<noteq> [] \<Longrightarrow> hd s \<noteq> c \<Longrightarrow> last s \<noteq> c \<Longrightarrow> strip c s = s"
proof -
  assume a: "s \<noteq> []" "hd s \<noteq> c" "last s \<noteq> c"
  have 1: "dropWhile (\<lambda>x. x = c) s = s" using a by (cases s) auto
  have "hd (rev s) \<noteq> c" using a by (simp add: hd_rev)
  then have 2: "dropWhile (\<lambda>x. x = c) (rev s) = rev s" using a by (cases "rev s") auto
  show ?thesis by (simp add: strip_def lstrip_def 1 2)
qed

lemma strip_all_sep: "set s \<subseteq> {c} \<Longrightarrow> strip c s = []"
proof -
  assume "set s \<subseteq> {c}"
  then show ?thesis by (auto simp: strip_def lstrip_def dest: set_dropWhileD)
qed

lemma strip_prefix_sep:
  "set r \<subseteq> {c} \<Longrightarrow> s \<noteq> [] \<Longrightarrow> hd s \<noteq> c \<Longrightarrow> last s \<noteq> c \<Longrightarrow> strip c (r @ s) = s"
proof -
  assume a: "set r \<subseteq> {c}" "s \<noteq> []" "hd s \<noteq> c" "last s \<noteq> c"
  have "dropWhile (\<lambda>x. x = c) (r @ s) = dropWhile (\<lambda>x. x = c) s"
    using a(1) by (induction r) auto
  then have "strip c (r @ s) = strip c s" by (simp add: strip_def lstrip_def)
  then show ?thesis using a by (simp add: strip_no_ends)
qed

lemma strip_join:
  assumes "\<And>x. x \<in> set xs \<Longrightarrow> x \<noteq> [] \<and> c \<notin> set x"
  shows "strip c (join [c] xs) = join [c] xs"
proof (cases xs)
  case Nil then show ?thesis by (simp add: strip_def lstrip_def)
next
  case (Cons y ys)
  then show ?thesis using join_ends[of xs c "[c]"] assms by (simp add: strip_no_ends)
qed

lemma strip_join_root:
  assumes "\<And>x. x \<in> set xs \<Longrightarrow> x \<noteq> [] \<and> c \<notin> set x" and "set r \<subseteq> {c}"
  shows "strip c (join [c] (r # xs)) = join [c] xs"
proof (cases xs)
  case Nil then show ?thesis using assms(2) by (simp add: strip_all_sep)
next
  case (Cons y ys)
  have e: "join [c] xs \<noteq> [] \<and> hd (join [c] xs) \<noteq> c \<and> last (join [c] xs) \<noteq> c"
    using join_ends[of xs c "[c]"] assms(1) Cons by simp
  have "join [c] (r # xs) = (r @ [c]) @ join [c] xs" using Cons by simp
  moreover have "set (r @ [c]) \<subseteq> {c}" using assms(2) by auto
  ultimately show ?thesis using e strip_prefix_sep[of "r @ [c]" c "join [c] xs"] by simp
qed

lemma splitroot_fst: "fst (splitroot p) = [] \<or> fst (splitroot p) = ''/'' \<or> fst (splitroot p) = ''//''"
  using splitroot_cases[of p] by auto

lemma sanitize_path_eq:
  "sanitize_path p =
     join ''/'' (filter (\<lambda>x. x \<notin> set UNWANTED_URL_PATH_PARTS)
                  (filter (\<lambda>x. x \<noteq> [] \<and> x \<noteq> ''.'') (split_str CHR ''/'' p)))"
proof -
  define segs where "segs = filter (\<lambda>x. x \<noteq> [] \<and> x \<noteq> ''.'') (split_str CHR ''/'' p)"
  define kept where "kept = filter (\<lambda>x. x \<notin> set UNWANTED_URL_PATH_PARTS) segs"
  have kept: "\<And>x. x \<in> set kept \<Longrightarrow> x \<noteq> [] \<and> CHR ''/'' \<notin> set x"
    by (auto simp: kept_def segs_def dest: split_str_no_sep)
  have sp: "sanitize_path p
      = strip CHR ''/'' (join ''/'' (remove_unwanted UNWANTED_URL_PATH_PARTS (Path_parts p)))"
    by (simp add: sanitize_path_def)
  have "sanitize_path p = join ''/'' kept"
  proof (cases "fst (splitroot p) = []")
    case True
    then have "remove_unwanted UNWANTED_URL_PATH_PARTS (Path_parts p) = kept"
      by (simp add: Path_parts_eq remove_unwanted_filter kept_def segs_def)
    then show ?thesis using strip_join[of kept "CHR ''/''", OF kept] by (simp only: sp)
  next
    case False
    define r where "r = fst (splitroot p)"
    have r: "r = ''/'' \<or> r = ''//''" using False splitroot_fst[of p] by (simp add: r_def)
    then have "r \<notin> set UNWANTED_URL_PATH_PARTS" by (auto simp: UNWANTED_URL_PATH_PARTS_def)
    then have ru: "remove_unwanted UNWANTED_URL_PATH_PARTS (Path_parts p) = r # kept"
      using False by (simp add: Path_parts_eq remove_unwanted_filter kept_def segs_def r_def)
    have "set r \<subseteq> {CHR ''/''}" using r by auto
    then have "strip CHR ''/'' (join ''/'' (r # kept)) = join ''/'' kept"
      using strip_join_root[of kept "CHR ''/''" r] kept by blast
    then show ?thesis by (simp only: sp ru)
  qed
  then show ?thesis by (simp only: kept_def segs_def)
qed

lemma split_sanitize_path:
  "split_str CHR ''/'' (sanitize_path p) =
     (let kept = filter (\<lambda>x. x \<notin> set UNWANTED_URL_PATH_PARTS)
                  (filter (\<lambda>x. x \<noteq> [] \<and> x \<noteq> ''.'') (split_str CHR ''/'' p))
      in if kept = [] then [[]] else kept)"
proof -
  define kept where "kept = filter (\<lambda>x. x \<notin> set UNWANTED_URL_PATH_PARTS)
                  (filter (\<lambda>x. x \<noteq> [] \<and> x \<noteq> ''.'') (split_str CHR ''/'' p))"
  have kept: "\<And>x. x \<in> set kept \<Longrightarrow> CHR ''/'' \<notin> set x"
    by (auto simp: kept_def dest: split_str_no_sep)
  have sp: "sanitize_path p = join ''/'' kept" by (simp only: sanitize_path_eq kept_def)
  have "kept \<noteq> [] \<Longrightarrow> split_str CHR ''/'' (join ''/'' kept) = kept"
    using split_str_join[of kept "CHR ''/''"] kept by simp
  then have "split_str CHR ''/'' (sanitize_path p) = (if kept = [] then [[]] else kept)"
    by (simp add: sp)
  then show ?thesis by (simp only: kept_def Let_def)
qed


lemma Path_parts_segments:
  "filter (\<lambda>seg. seg \<notin> set UNWANTED_URL_PATH_PARTS \<and> CHR ''/'' \<notin> set seg) (Path_parts p)
     = filter (\<lambda>x. x \<notin> set UNWANTED_URL_PATH_PARTS)
         (filter (\<lambda>x. x \<noteq> [] \<and> x \<noteq> ''.'') (split_str CHR ''/'' p))"
proof -
  define segs where "segs = filter (\<lambda>x. x \<noteq> [] \<and> x \<noteq> ''.'') (split_str CHR ''/'' p)"
  have segs: "\<And>x. x \<in> set segs \<Longrightarrow> CHR ''/'' \<notin> set x"
    by (auto simp: segs_def dest: split_str_no_sep)
  then have f: "filter (\<lambda>seg. seg \<notin> set UNWANTED_URL_PATH_PARTS \<and> CHR ''/'' \<notin> set seg) segs
      = filter (\<lambda>x. x \<notin> set UNWANTED_URL_PATH_PARTS) segs"
    by (auto intro: filter_cong)
  have "Path_parts p = segs \<or> Path_parts p = ''/'' # segs \<or> Path_parts p = ''//'' # segs"
    using splitroot_fst[of p] by (auto simp: Path_parts_eq segs_def)
  then have a: "filter (\<lambda>seg. seg \<notin> set UNWANTED_URL_PATH_PARTS \<and> CHR ''/'' \<notin> set seg) (Path_parts p)
      = filter (\<lambda>seg. seg \<notin> set UNWANTED_URL_PATH_PARTS \<and> CHR ''/'' \<notin> set seg) segs"
    by auto
  show ?thesis unfolding segs_def[symmetric] by (rule trans[OF a f])
qed

lemma sanitize_url_Inr:
  "url \<noteq> [] \<Longrightarrow> urlparse url = Inr parts \<Longrightarrow>
   sanitize_url url = Inr (urlunparse (parts\<lparr>path := (if sanitize_path (path parts) = [] then ''/''
                                                     else sanitize_path (path parts)),
                                            query := sanitize_query (sanitize_path (path parts))\<rparr>))"
  by (simp add: sanitize_url_def Let_def)

text \<open>
  Claim C3.  For an input that \<open>urlparse\<close> accepts, the path handed to \<open>urlunparse\<close>
  is built from \<open>sanitize_path\<close> of the parsed path.  That text is the parts of the
  parsed path other than the root, without every part that is in
  \<open>UNWANTED_URL_PATH_PARTS\<close>, in their order and joined by slashes; no segment of it is
  in the set.  Parts are compared as whole segments.
\<close>

theorem sanitize_url_removes_unwanted:
  assumes "url \<noteq> []" and "urlparse url = Inr parts"
  shows "sanitize_url url
           = Inr (urlunparse (parts\<lparr>path := (if sanitize_path (path parts) = [] then ''/''
                                                 else sanitize_path (path parts)),
                                        query := sanitize_query (sanitize_path (path parts))\<rparr>))
         \<and> sanitize_path (path parts)
           = join ''/'' (filter (\<lambda>seg. seg \<notin> set UNWANTED_URL_PATH_PARTS \<and> CHR ''/'' \<notin> set seg)
                          (Path_parts (path parts)))
         \<and> set (split_str CHR ''/'' (sanitize_path (path parts))) \<inter> set UNWANTED_URL_PATH_PARTS = {}"
proof -
  define kept where "kept = filter (\<lambda>x. x \<notin> set UNWANTED_URL_PATH_PARTS)
         (filter (\<lambda>x. x \<noteq> [] \<and> x \<noteq> ''.'') (split_str CHR ''/'' (path parts)))"
  have 1: "sanitize_path (path parts)
           = join ''/'' (filter (\<lambda>seg. seg \<notin> set UNWANTED_URL_PATH_PARTS \<and> CHR ''/'' \<notin> set seg)
                          (Path_parts (path parts)))"
    by (simp only: Path_parts_segments sanitize_path_eq)
  have s: "split_str CHR ''/'' (sanitize_path (path parts)) = (if kept = [] then [[]] else kept)"
    by (simp only: split_sanitize_path kept_def Let_def)
  have "[] \<notin> set UNWANTED_URL_PATH_PARTS" by (simp add: UNWANTED_URL_PATH_PARTS_def)
  moreover have "set kept \<inter> set UNWANTED_URL_PATH_PARTS = {}" by (auto simp: kept_def)
  ultimately have 2: "set (split_str CHR ''/'' (sanitize_path (path parts))) \<inter> set UNWANTED_URL_PATH_PARTS = {}"
    by (simp add: s)
  show ?thesis using sanitize_url_Inr[OF assms] 1 2 by blast
qed

theorem sanitize_url_removes_unwanted_witness:
  "''https://example.org/rss/a/feed/b/feed/rss.xml?x'' \<noteq> []
   \<and> urlparse ''https://example.org/rss/a/feed/b/feed/rss.xml?x''
       = Inr \<lparr>scheme = ''https'', netloc = ''example.org'', path = ''/rss/a/feed/b/feed/rss.xml'',
              params = [], query = ''x'', fragment = []\<rparr>
   \<and> set (split_str CHR ''/'' (sanitize_path ''/rss/a/feed/b/feed/rss.xml''))
         \<inter> set UNWANTED_URL_PATH_PARTS = {}
   \<and> sanitize_path ''/rss/a/feed/b/feed/rss.xml'' = ''a/b''
   \<and> sanitize_url ''https://example.org/rss/a/feed/b/feed/rss.xml?x''
       = Inr ''https://example.org/a/b?do=rss''"
proof -
  have n: "''https://example.org/rss/a/feed/b/feed/rss.xml?x'' \<noteq> []" by simp
  have p: "urlparse ''https://example.org/rss/a/feed/b/feed/rss.xml?x''
       = Inr \<lparr>scheme = ''https'', netloc = ''example.org'', path = ''/rss/a/feed/b/feed/rss.xml'',
              params = [], query = ''x'', fragment = []\<rparr>" by code_simp
  have sel: "path \<lparr>scheme = ''https'', netloc = ''example.org'', path = ''/rss/a/feed/b/feed/rss.xml'',
              params = [], query = ''x'', fragment = []\<rparr> = ''/rss/a/feed/b/feed/rss.xml''" by simp
  have t: "set (split_str CHR ''/'' (sanitize_path ''/rss/a/feed/b/feed/rss.xml''))
         \<inter> set UNWANTED_URL_PATH_PARTS = {}"
    using conjunct2[OF conjunct2[OF sanitize_url_removes_unwanted[OF n p]]] by (simp only: sel)
  have sp: "sanitize_path ''/rss/a/feed/b/feed/rss.xml'' = ''a/b''" by code_simp
  have v: "sanitize_url ''https://example.org/rss/a/feed/b/feed/rss.xml?x''
       = Inr ''https://example.org/a/b?do=rss''" by code_simp
  show ?thesis using n p t sp v by blast
qed

text \<open>
  Claim C10.  The sanitized path is made of the slash-separated segments of the parsed
  path that are not empty, not \<open>.\<close> and not unwanted; no segment of it is \<open>.\<close>.
  On \<open>https://example.org/./shaarli/feed\<close> the result is
  \<open>https://example.org/shaarli?do=rss\<close>.
\<close>

theorem sanitize_path_drops_dot_segments:
  "sanitize_path p
     = join ''/'' (filter (\<lambda>seg. seg \<noteq> [] \<and> seg \<noteq> ''.'' \<and> seg \<notin> set UNWANTED_URL_PATH_PARTS)
                    (split_str CHR ''/'' p))
   \<and> ''.'' \<notin> set (split_str CHR ''/'' (sanitize_path p))
   \<and> sanitize_url ''https://example.org/./shaarli/feed'' = Inr ''https://example.org/shaarli?do=rss''
   \<and> sanitize_url ''https://example.org/.//shaarli/./x/.'' = Inr ''https://example.org/shaarli/x?do=rss''"
proof -
  have 1: "sanitize_path p
     = join ''/'' (filter (\<lambda>seg. seg \<noteq> [] \<and> seg \<noteq> ''.'' \<and> seg \<notin> set UNWANTED_URL_PATH_PARTS)
                    (split_str CHR ''/'' p))"
    by (simp add: sanitize_path_eq conj_commute conj_left_commute)
  have 2: "''.'' \<notin> set (split_str CHR ''/'' (sanitize_path p))"
    by (simp add: split_sanitize_path Let_def)
  have 3: "sanitize_url ''https://example.org/./shaarli/feed'' = Inr ''https://example.org/shaarli?do=rss''"
    by code_simp
  have 4: "sanitize_url ''https://example.org/.//shaarli/./x/.'' = Inr ''https://example.org/shaarli/x?do=rss''"
    by code_simp
  show ?thesis using 1 2 3 4 by blast
qed

text \<open>The order in which the unwanted parts are visited does not matter.\<close>

lemma remove_unwanted_order:
  "set order = set UNWANTED_URL_PATH_PARTS \<Longrightarrow>
   remove_unwanted order pth = remove_unwanted UNWANTED_URL_PATH_PARTS pth"
  by (simp add: remove_unwanted_filter)

section \<open>The reconciler\<close>

lemma replace_Nil: "old \<noteq> [] \<Longrightarrow> replace old new [] = []"
  by (subst replace.simps) simp

lemma replace_match:
  "old \<noteq> [] \<Longrightarrow> replace old new (old @ s) = new @ replace old new s"
  by (subst replace.simps) simp

lemma replace_skip:
  "old \<noteq> [] \<Longrightarrow> take (length old) (x # s) \<noteq> old \<Longrightarrow> replace old new (x # s) = x # replace old new s"
  by (subst replace.simps) simp

lemma no_straddle:
  assumes "list_all (\<lambda>k. take k old \<noteq> drop (length old - k) old) [1 ..< length old]"
    and "a \<noteq> []" and "take (length old) (a @ old @ b) = old"
  shows "take (length old) a = old"
proof (rule ccontr)
  assume n: "take (length old) a \<noteq> old"
  have lt: "length a < length old"
  proof (rule ccontr)
    assume "\<not> length a < length old"
    then have "length old \<le> length a" by simp
    then have "take (length old) (a @ old @ b) = take (length old) a" by simp
    with assms(3) n show False by metis
  qed
  define k where "k = length a"
  define j where "j = length old - k"
  have k: "0 < k" "k < length old" using assms(2) lt by (auto simp: k_def)
  have "take (length old) (a @ old @ b) = a @ take j old"
    using lt by (simp add: j_def k_def)
  then have eq: "a @ take j old = old" using assms(3) by simp
  then have "drop k (a @ take j old) = drop k old" by simp
  then have "take j old = drop k old" by (simp add: k_def)
  moreover have "k = length old - j" using k by (simp add: j_def)
  moreover have "j \<in> set [1 ..< length old]" using k by (auto simp: j_def)
  ultimately show False using assms(1) by (auto simp: list_all_iff)
qed

lemma replace_append:
  assumes old: "old \<noteq> []"
    and border: "list_all (\<lambda>k. take k old \<noteq> drop (length old - k) old) [1 ..< length old]"
  shows "replace old new (a @ old @ b) = replace old new a @ new @ replace old new b"
proof (induction a rule: length_induct)
  case (1 a)
  show ?case
  proof (cases a)
    case Nil
    then show ?thesis using old by (simp add: replace_match replace_Nil)
  next
    case (Cons x a')
    show ?thesis
    proof (cases "take (length old) a = old")
      case True
      then have a: "a = old @ drop (length old) a" by (metis append_take_drop_id)
      have "length (drop (length old) a) < length a" using old Cons by simp
      then have ih: "replace old new (drop (length old) a @ old @ b)
          = replace old new (drop (length old) a) @ new @ replace old new b"
        using 1 by blast
      have "replace old new (a @ old @ b) = new @ replace old new (drop (length old) a @ old @ b)"
        by (subst a) (simp add: replace_match old)
      moreover have "replace old new a = new @ replace old new (drop (length old) a)"
        by (subst a) (simp add: replace_match old)
      ultimately show ?thesis using ih by simp
    next
      case False
      then have "take (length old) (a @ old @ b) \<noteq> old"
        using no_straddle[OF border, of a b] Cons by blast
      then have "replace old new (a @ old @ b) = x # replace old new (a' @ old @ b)"
        using Cons old by (simp add: replace_skip)
      moreover have "replace old new a = x # replace old new a'"
        using False Cons old by (simp add: replace_skip)
      moreover have "replace old new (a' @ old @ b) = replace old new a' @ new @ replace old new b"
        using 1 Cons by simp
      ultimately show ?thesis by simp
    qed
  qed
qed

lemma replace_http:
  "replace ''http:'' ''https:'' (a @ ''http:'' @ b)
     = replace ''http:'' ''https:'' a @ ''https:'' @ replace ''http:'' ''https:'' b"
  by (rule replace_append) (simp_all add: upt_rec)

lemma replace_https:
  "replace ''https:'' ''http:'' (a @ ''https:'' @ b)
     = replace ''https:'' ''http:'' a @ ''http:'' @ replace ''https:'' ''http:'' b"
  by (rule replace_append) (simp_all add: upt_rec)

lemma print_new_eq:
  "print_new cur xs (out, n) =
     (out @ map (\<lambda>u. [CHR 0x22] @ u @ [CHR 0x22] @ '','')
              (filter (\<lambda>u. u \<noteq> [] \<and> replace ''http:'' ''https:'' u \<notin> cur
                                \<and> replace ''https:'' ''http:'' u \<notin> cur) xs),
      n + length (filter (\<lambda>u. u \<noteq> [] \<and> replace ''http:'' ''https:'' u \<notin> cur
                                \<and> replace ''https:'' ''http:'' u \<notin> cur) xs))"
  by (induction xs arbitrary: out n) auto

lemma fold_update: "fold (\<lambda>feeds new_feeds. new_feeds \<union> feeds) ds m = m \<union> \<Union> (set ds)"
  by (induction ds arbitrary: m) auto

lemma main_eq:
  "main cur man bad ds =
     map (\<lambda>u. [CHR 0x22] @ u @ [CHR 0x22] @ '','')
       (filter (\<lambda>u. u \<noteq> [] \<and> replace ''http:'' ''https:'' u \<notin> cur
                      \<and> replace ''https:'' ''http:'' u \<notin> cur)
          (sorted_list_of_set (man \<union> \<Union> (set ds) - cur - bad)))
     @ [''+ '' @ str_of_nat (length
       (filter (\<lambda>u. u \<noteq> [] \<and> replace ''http:'' ''https:'' u \<notin> cur
                      \<and> replace ''https:'' ''http:'' u \<notin> cur)
          (sorted_list_of_set (man \<union> \<Union> (set ds) - cur - bad))))]"
  by (simp add: main_def fold_update print_new_eq Let_def)

text \<open>
  Claim C5.  For finite sets, \<open>main\<close> prints one line \<open>"u",\<close> for each \<open>u\<close> of a list
  \<open>printed\<close> without repetitions, then the line \<open>+ N\<close> with \<open>N\<close> the length of that
  list.  The members of \<open>printed\<close> are exactly the members \<open>u\<close> of
  \<open>(manual \<union> discovered\<^sub>1 \<union> \<dots>) - current - bad\<close> that are not empty and whose two
  scheme-swapped variants are not in \<open>current\<close>; \<open>bad\<close> is not consulted for the
  variants.
\<close>

theorem main_prints_new_feeds:
  assumes "finite (manual_feeds \<union> \<Union> (set dynamic_feeds))"
  shows "\<exists>printed.
           main current_feeds manual_feeds bad_feeds dynamic_feeds
             = map (\<lambda>u. [CHR 0x22] @ u @ [CHR 0x22] @ '','') printed
               @ [''+ '' @ str_of_nat (length printed)]
         \<and> distinct printed
         \<and> set printed
             = {u \<in> (manual_feeds \<union> \<Union> (set dynamic_feeds)) - current_feeds - bad_feeds.
                  u \<noteq> [] \<and> replace ''http:'' ''https:'' u \<notin> current_feeds
                         \<and> replace ''https:'' ''http:'' u \<notin> current_feeds}"
proof -
  define diff where "diff = manual_feeds \<union> \<Union> (set dynamic_feeds) - current_feeds - bad_feeds"
  define printed where "printed = filter (\<lambda>u. u \<noteq> [] \<and> replace ''http:'' ''https:'' u \<notin> current_feeds
                      \<and> replace ''https:'' ''http:'' u \<notin> current_feeds) (sorted_list_of_set diff)"
  have fin: "finite diff" using assms by (simp add: diff_def)
  have 1: "main current_feeds manual_feeds bad_feeds dynamic_feeds
             = map (\<lambda>u. [CHR 0x22] @ u @ [CHR 0x22] @ '','') printed
               @ [''+ '' @ str_of_nat (length printed)]"
    by (simp only: main_eq printed_def diff_def)
  have 2: "distinct printed" by (simp add: printed_def)
  have 3: "set printed = {u \<in> diff. u \<noteq> [] \<and> replace ''http:'' ''https:'' u \<notin> current_feeds
                         \<and> replace ''https:'' ''http:'' u \<notin> current_feeds}"
    using fin by (auto simp: printed_def)
  show ?thesis using 1 2 3 unfolding diff_def by blast
qed

theorem main_prints_new_feeds_witness:
  "finite ({''https://b/?do=rss'', []}
       \<union> \<Union> (set [{''https://a/?do=rss''}, {''http://c/?do=rss'', ''http://bad/?do=rss''}]))
   \<and> main {''http://a/?do=rss''} {''https://b/?do=rss'', []} {''http://bad/?do=rss''}
        [{''https://a/?do=rss''}, {''http://c/?do=rss'', ''http://bad/?do=rss''}]
       = [[CHR 0x22] @ ''http://c/?do=rss'' @ [CHR 0x22] @ '','',
          [CHR 0x22] @ ''https://b/?do=rss'' @ [CHR 0x22] @ '','', ''+ 2'']
   \<and> (\<exists>printed.
         main {''http://a/?do=rss''} {''https://b/?do=rss'', []} {''http://bad/?do=rss''}
           [{''https://a/?do=rss''}, {''http://c/?do=rss'', ''http://bad/?do=rss''}]
           = map (\<lambda>u. [CHR 0x22] @ u @ [CHR 0x22] @ '','') printed @ [''+ '' @ str_of_nat (length printed)]
         \<and> distinct printed)"
proof -
  have f1: "finite ({''https://b/?do=rss'', []}
       \<union> \<Union> (set [{''https://a/?do=rss''}, {''http://c/?do=rss'', ''http://bad/?do=rss''}]))" by simp
  have m: "main {''http://a/?do=rss''} {''https://b/?do=rss'', []} {''http://bad/?do=rss''}
        [{''https://a/?do=rss''}, {''http://c/?do=rss'', ''http://bad/?do=rss''}]
       = [[CHR 0x22] @ ''http://c/?do=rss'' @ [CHR 0x22] @ '','',
          [CHR 0x22] @ ''https://b/?do=rss'' @ [CHR 0x22] @ '','', ''+ 2'']"
    by code_simp
  have e: "\<exists>printed.
         main {''http://a/?do=rss''} {''https://b/?do=rss'', []} {''http://bad/?do=rss''}
           [{''https://a/?do=rss''}, {''http://c/?do=rss'', ''http://bad/?do=rss''}]
           = map (\<lambda>u. [CHR 0x22] @ u @ [CHR 0x22] @ '','') printed @ [''+ '' @ str_of_nat (length printed)]
         \<and> distinct printed"
    using main_prints_new_feeds[OF f1, of "{''http://a/?do=rss''}" "{''http://bad/?do=rss''}"] by blast
  show ?thesis using f1 m e by blast
qed

text \<open>
  Claim C9.  The two substitutions of the exclusion test rewrite an occurrence of
  \<open>http:\<close> (of \<open>https:\<close>) wherever it stands in the candidate, and go on in the text
  before and after it.  So a candidate with a second URL in its query is excluded when
  \<open>current\<close> holds the variant with both occurrences rewritten, and is printed when
  \<open>current\<close> holds only the variant with the leading scheme rewritten.
\<close>

theorem replace_every_scheme_occurrence:
  "replace ''http:'' ''https:'' (a @ ''http:'' @ b)
     = replace ''http:'' ''https:'' a @ ''https:'' @ replace ''http:'' ''https:'' b
   \<and> replace ''https:'' ''http:'' (a @ ''https:'' @ b)
     = replace ''https:'' ''http:'' a @ ''http:'' @ replace ''https:'' ''http:'' b
   \<and> replace ''http:'' ''https:'' ''http://a/?u=http://b'' = ''https://a/?u=https://b''
   \<and> main {''https://a/?u=https://b''} {} {} [{''http://a/?u=http://b''}] = [''+ 0'']
   \<and> main {''https://a/?u=http://b''} {} {} [{''http://a/?u=http://b''}]
       = [[CHR 0x22] @ ''http://a/?u=http://b'' @ [CHR 0x22] @ '','', ''+ 1'']"
proof -
  have 3: "replace ''http:'' ''https:'' ''http://a/?u=http://b'' = ''https://a/?u=https://b''"
    by code_simp
  have 4: "main {''https://a/?u=https://b''} {} {} [{''http://a/?u=http://b''}] = [''+ 0'']"
    by code_simp
  have 5: "main {''https://a/?u=http://b''} {} {} [{''http://a/?u=http://b''}]
       = [[CHR 0x22] @ ''http://a/?u=http://b'' @ [CHR 0x22] @ '','', ''+ 1'']"
    by code_simp
  show ?thesis using replace_http replace_https 3 4 5 by blast
qed

section \<open>\<open>urlsplit\<close>, step by step\<close>

lemma takeWhile_conj_length:
  "length (takeWhile (\<lambda>x. P x \<and> Q x) xs) = min (length (takeWhile P xs)) (length (takeWhile Q xs))"
  by (induction xs) auto

lemma takeWhile_length_le: "length (takeWhile P xs) \<le> length xs"
  by (induction xs) auto

lemma takeWhile_notin: "c \<notin> set xs \<Longrightarrow> takeWhile (\<lambda>x. x \<noteq> c) xs = xs"
  by (induction xs) auto

lemma find_from_eq:
  "find_from c start s =
     (if c \<in> set (drop start s) then int (start + length (takeWhile (\<lambda>x. x \<noteq> c) (drop start s))) else - 1)"
  by (simp add: find_from_def)

lemma splitnetloc_eq:
  assumes "start \<le> length url"
  shows "splitnetloc url start =
     (takeWhile (\<lambda>c. c \<noteq> CHR ''/'' \<and> c \<noteq> CHR ''?'' \<and> c \<noteq> CHR ''#'') (drop start url),
      dropWhile (\<lambda>c. c \<noteq> CHR ''/'' \<and> c \<noteq> CHR ''?'' \<and> c \<noteq> CHR ''#'') (drop start url))"
proof -
  define d where "d = drop start url"
  define L where "L = int (start + length d)"
  define m where "m c = int (start + length (takeWhile (\<lambda>x. x \<noteq> c) d))" for c
  define stp where "stp = (\<lambda>c delim. let wdelim = find_from c start url
                                  in if wdelim \<ge> 0 then min delim wdelim else delim)"
  have len: "int (length url) = L" using assms by (simp add: d_def L_def)
  have mle: "m c \<le> L" for c
    using takeWhile_length_le[of "\<lambda>x. x \<noteq> c" d] by (simp add: m_def L_def)
  have stp_eq: "stp c delim = min delim (m c)" if "delim \<le> L" for c delim
  proof (cases "c \<in> set d")
    case True
    then show ?thesis by (simp add: stp_def find_from_def Let_def d_def m_def)
  next
    case False
    then have tw: "takeWhile (\<lambda>x. x \<noteq> c) d = d" by (rule takeWhile_notin)
    have "m c = L" by (simp only: m_def L_def tw)
    moreover have "stp c delim = delim" using False by (simp add: stp_def find_from_def Let_def d_def)
    ultimately show ?thesis using that by simp
  qed
  have a1: "stp CHR ''/'' L = min L (m CHR ''/'')" by (rule stp_eq) simp
  have a2: "stp CHR ''?'' (min L (m CHR ''/'')) = min (min L (m CHR ''/'')) (m CHR ''?'')"
    by (rule stp_eq) simp
  have a3: "stp CHR ''#'' (min (min L (m CHR ''/'')) (m CHR ''?''))
      = min (min (min L (m CHR ''/'')) (m CHR ''?'')) (m CHR ''#'')"
    by (rule stp_eq) simp
  have "fold stp ''/?#'' L = min (min (min L (m CHR ''/'')) (m CHR ''?'')) (m CHR ''#'')"
    by (simp add: a1 a2 a3)
  also have "\<dots> = min (min (m CHR ''/'') (m CHR ''?'')) (m CHR ''#'')"
    using mle[of "CHR ''/''"] by simp
  also have "\<dots> = int (start + length (takeWhile (\<lambda>c. c \<noteq> CHR ''/'' \<and> c \<noteq> CHR ''?'' \<and> c \<noteq> CHR ''#'') d))"
    using takeWhile_conj_length[of "\<lambda>c. c \<noteq> CHR ''/''" "\<lambda>c. c \<noteq> CHR ''?'' \<and> c \<noteq> CHR ''#''" d]
      takeWhile_conj_length[of "\<lambda>c. c \<noteq> CHR ''?''" "\<lambda>c. c \<noteq> CHR ''#''" d]
    by (simp add: m_def min.assoc)
  finally have delim: "fold stp ''/?#'' (int (length url))
      = int (start + length (takeWhile (\<lambda>c. c \<noteq> CHR ''/'' \<and> c \<noteq> CHR ''?'' \<and> c \<noteq> CHR ''#'') d))"
    by (simp add: len)
  have "splitnetloc url start =
      (take (nat (fold stp ''/?#'' (int (length url))) - start) (drop start url),
       drop (nat (fold stp ''/?#'' (int (length url)))) url)"
    by (simp add: splitnetloc_def Let_def stp_def)
  also have "\<dots> = (takeWhile (\<lambda>c. c \<noteq> CHR ''/'' \<and> c \<noteq> CHR ''?'' \<and> c \<noteq> CHR ''#'') d,
      dropWhile (\<lambda>c. c \<noteq> CHR ''/'' \<and> c \<noteq> CHR ''?'' \<and> c \<noteq> CHR ''#'') d)"
  proof -
    define k where "k = length (takeWhile (\<lambda>c. c \<noteq> CHR ''/'' \<and> c \<noteq> CHR ''?'' \<and> c \<noteq> CHR ''#'') d)"
    have n: "nat (fold stp ''/?#'' (int (length url))) = start + k"
      unfolding delim k_def by (simp only: nat_int)
    have t: "take k d = takeWhile (\<lambda>c. c \<noteq> CHR ''/'' \<and> c \<noteq> CHR ''?'' \<and> c \<noteq> CHR ''#'') d"
      by (simp add: k_def takeWhile_eq_take[symmetric])
    have dr: "drop k d = dropWhile (\<lambda>c. c \<noteq> CHR ''/'' \<and> c \<noteq> CHR ''?'' \<and> c \<noteq> CHR ''#'') d"
      by (simp add: k_def dropWhile_eq_drop[symmetric])
    have dk: "drop (start + k) url = drop k d" by (simp add: d_def add.commute)
    show ?thesis unfolding n d_def[symmetric] dk by (simp add: t dr)
  qed
  finally show ?thesis by (simp add: d_def)
qed


lemma find_pos: "(find_str c s > 0) = (c \<in> set s \<and> takeWhile (\<lambda>x. x \<noteq> c) s \<noteq> [])"
  by (auto simp: find_str_def find_from_def)

lemma take_find: "c \<in> set s \<Longrightarrow> take (nat (find_str c s)) s = takeWhile (\<lambda>x. x \<noteq> c) s"
  by (simp add: find_str_def find_from_def takeWhile_eq_take[symmetric])

lemma drop_find: "c \<in> set s \<Longrightarrow> drop (nat (find_str c s) + 1) s = drop 1 (dropWhile (\<lambda>x. x \<noteq> c) s)"
proof -
  assume "c \<in> set s"
  then have "nat (find_str c s) = length (takeWhile (\<lambda>x. x \<noteq> c) s)" by (simp add: find_str_def find_from_def)
  then have "drop (nat (find_str c s) + 1) s = drop 1 (drop (length (takeWhile (\<lambda>x. x \<noteq> c) s)) s)"
    by (simp add: add.commute)
  then show ?thesis by (simp add: dropWhile_eq_drop[symmetric])
qed

lemma drop_find_Suc:
  "c \<in> set s \<Longrightarrow> drop (Suc (nat (find_str c s))) s = drop (Suc 0) (dropWhile (\<lambda>x. x \<noteq> c) s)"
  using drop_find[of c s] by simp

lemma split1_notin: "c \<notin> set s \<Longrightarrow> split1 c s = (s, [])"
proof -
  assume a: "c \<notin> set s"
  then have "dropWhile (\<lambda>x. x \<noteq> c) s = []" by auto
  then show ?thesis using a by (simp only: split1_def takeWhile_notin) simp
qed

lemma split1_if: "(if c \<in> set s then split1 c s else (s, [])) = split1 c s"
  by (simp add: split1_notin)

lemma take2_length: "take 2 r = [a, b] \<Longrightarrow> 2 \<le> length r"
  by (cases r; cases "tl r") auto

lemma urlsplit_unfold:
  "urlsplit u0 =
     (let U = filter (\<lambda>c. c \<notin> set UNSAFE_URL_BYTES_TO_REMOVE) (dropWhile WHATWG_C0_CONTROL_OR_SPACE u0);
          has_scheme = (CHR '':'' \<in> set U \<and> takeWhile (\<lambda>c. c \<noteq> CHR '':'') U \<noteq> []
                        \<and> is_ascii_alpha (hd U)
                        \<and> list_all (\<lambda>c. c \<in> set scheme_chars) (takeWhile (\<lambda>c. c \<noteq> CHR '':'') U));
          s = (if has_scheme then lower (takeWhile (\<lambda>c. c \<noteq> CHR '':'') U) else []);
          r1 = (if has_scheme then drop 1 (dropWhile (\<lambda>c. c \<noteq> CHR '':'') U) else U);
          n = (if take 2 r1 = ''//''
               then takeWhile (\<lambda>c. c \<noteq> CHR ''/'' \<and> c \<noteq> CHR ''?'' \<and> c \<noteq> CHR ''#'') (drop 2 r1) else []);
          r2 = (if take 2 r1 = ''//''
                then dropWhile (\<lambda>c. c \<noteq> CHR ''/'' \<and> c \<noteq> CHR ''?'' \<and> c \<noteq> CHR ''#'') (drop 2 r1) else r1);
          r3 = takeWhile (\<lambda>c. c \<noteq> CHR ''#'') r2;
          f = drop 1 (dropWhile (\<lambda>c. c \<noteq> CHR ''#'') r2);
          p = takeWhile (\<lambda>c. c \<noteq> CHR ''?'') r3;
          q = drop 1 (dropWhile (\<lambda>c. c \<noteq> CHR ''?'') r3)
      in if (CHR ''['' \<in> set n \<and> CHR '']'' \<notin> set n) \<or> (CHR '']'' \<in> set n \<and> CHR ''['' \<notin> set n)
            \<or> (CHR ''['' \<in> set n \<and> CHR '']'' \<in> set n \<and> \<not> check_bracketed_netloc n)
         then Inl ValueError else Inr (s, n, p, q, f))"
proof -
  define U where "U = filter (\<lambda>c. c \<notin> set UNSAFE_URL_BYTES_TO_REMOVE) (dropWhile WHATWG_C0_CONTROL_OR_SPACE u0)"
  define has_scheme where "has_scheme = (CHR '':'' \<in> set U \<and> takeWhile (\<lambda>c. c \<noteq> CHR '':'') U \<noteq> []
                        \<and> is_ascii_alpha (hd U)
                        \<and> list_all (\<lambda>c. c \<in> set scheme_chars) (takeWhile (\<lambda>c. c \<noteq> CHR '':'') U))"
  define s where "s = (if has_scheme then lower (takeWhile (\<lambda>c. c \<noteq> CHR '':'') U) else [])"
  define r1 where "r1 = (if has_scheme then drop 1 (dropWhile (\<lambda>c. c \<noteq> CHR '':'') U) else U)"
  define n where "n = (if take 2 r1 = ''//''
               then takeWhile (\<lambda>c. c \<noteq> CHR ''/'' \<and> c \<noteq> CHR ''?'' \<and> c \<noteq> CHR ''#'') (drop 2 r1) else [])"
  define r2 where "r2 = (if take 2 r1 = ''//''
                then dropWhile (\<lambda>c. c \<noteq> CHR ''/'' \<and> c \<noteq> CHR ''?'' \<and> c \<noteq> CHR ''#'') (drop 2 r1) else r1)"
  define r3 where "r3 = takeWhile (\<lambda>c. c \<noteq> CHR ''#'') r2"
  define f where "f = drop 1 (dropWhile (\<lambda>c. c \<noteq> CHR ''#'') r2)"
  define p where "p = takeWhile (\<lambda>c. c \<noteq> CHR ''?'') r3"
  define q where "q = drop 1 (dropWhile (\<lambda>c. c \<noteq> CHR ''?'') r3)"
  have cond: "(find_str CHR '':'' U > 0 \<and> is_ascii_alpha (hd U)
                \<and> list_all (\<lambda>c. c \<in> set scheme_chars) (take (nat (find_str CHR '':'' U)) U)) = has_scheme"
    by (auto simp: has_scheme_def find_pos take_find)
  have sch: "(if find_str CHR '':'' U > 0 \<and> is_ascii_alpha (hd U)
                \<and> list_all (\<lambda>c. c \<in> set scheme_chars) (take (nat (find_str CHR '':'' U)) U)
             then (lower (take (nat (find_str CHR '':'' U)) U), drop (nat (find_str CHR '':'' U) + 1) U)
             else ([], U)) = (s, r1)"
  proof (cases has_scheme)
    case True
    then have "CHR '':'' \<in> set U" by (simp add: has_scheme_def)
    then show ?thesis unfolding cond using True by (simp add: s_def r1_def take_find drop_find_Suc)
  next
    case False
    then show ?thesis unfolding cond by (simp add: s_def r1_def)
  qed
  have nl: "(if take 2 r1 = ''//'' then splitnetloc r1 2 else ([], r1)) = (n, r2)"
  proof (cases "take 2 r1 = ''//''")
    case True
    then have "2 \<le> length r1" by (rule take2_length)
    then show ?thesis using True by (simp add: splitnetloc_eq n_def r2_def)
  next
    case False
    then show ?thesis by (simp add: n_def r2_def)
  qed
  have fr: "split1 CHR ''#'' r2 = (r3, f)" by (simp add: split1_def r3_def f_def)
  have qu: "split1 CHR ''?'' r3 = (p, q)" by (simp add: split1_def p_def q_def)
  have main: "urlsplit u0 =
      (if (CHR ''['' \<in> set n \<and> CHR '']'' \<notin> set n) \<or> (CHR '']'' \<in> set n \<and> CHR ''['' \<notin> set n)
            \<or> (CHR ''['' \<in> set n \<and> CHR '']'' \<in> set n \<and> \<not> check_bracketed_netloc n)
       then Inl ValueError else Inr (s, n, p, q, f))"
    unfolding urlsplit_def Let_def U_def[symmetric] sch prod.case nl split1_if fr qu checknetloc_def
    by simp
  show ?thesis
    unfolding Let_def
    by (simp only: main n_def r2_def r3_def f_def p_def q_def s_def r1_def has_scheme_def U_def)
qed

section \<open>The text that \<open>sanitize_url\<close> returns\<close>

lemma split_str_subset: "x \<in> set (split_str c s) \<Longrightarrow> set x \<subseteq> set s"
proof (induction s arbitrary: x)
  case Nil then show ?case by simp
next
  case (Cons a s)
  show ?case
  proof (cases "a = c")
    case True then show ?thesis using Cons by auto
  next
    case False
    obtain y ys where sp: "split_str c s = y # ys"
      using split_str_not_Nil[of c s] by (cases "split_str c s") auto
    then have "x = a # y \<or> x \<in> set ys" using Cons.prems False by simp
    moreover have "set y \<subseteq> set s" using Cons.IH[of y] sp by simp
    moreover have "x \<in> set ys \<Longrightarrow> set x \<subseteq> set s" using Cons.IH[of x] sp by simp
    ultimately show ?thesis by auto
  qed
qed

lemma set_join: "set (join sep xs) \<subseteq> \<Union> (set ` set xs) \<union> set sep"
  by (induction sep xs rule: join.induct) auto

lemma set_join_single: "length xs \<le> 1 \<Longrightarrow> set (join sep xs) \<subseteq> \<Union> (set ` set xs)"
  by (cases xs; cases "tl xs") auto

lemma sanitize_path_subset: "set (sanitize_path p) \<subseteq> set p"
proof -
  define kept where "kept = filter (\<lambda>x. x \<notin> set UNWANTED_URL_PATH_PARTS)
                  (filter (\<lambda>x. x \<noteq> [] \<and> x \<noteq> ''.'') (split_str CHR ''/'' p))"
  have sp: "sanitize_path p = join ''/'' kept" by (simp only: sanitize_path_eq kept_def)
  have sub: "\<Union> (set ` set kept) \<subseteq> set p"
    using split_str_subset[of _ "CHR ''/''" p] by (auto simp: kept_def)
  show ?thesis
  proof (cases "CHR ''/'' \<in> set p")
    case True
    then show ?thesis using set_join[of "''/''" kept] sub by (auto simp: sp)
  next
    case False
    then have "split_str CHR ''/'' p = [p]" by (rule split_str_no_occ)
    then have "length kept \<le> 1" by (simp add: kept_def)
    then show ?thesis using set_join_single[of kept "''/''"] sub by (auto simp: sp)
  qed
qed

lemma sanitize_path_ends:
  "sanitize_path p \<noteq> [] \<Longrightarrow> hd (sanitize_path p) \<noteq> CHR ''/'' \<and> last (sanitize_path p) \<noteq> CHR ''/''"
proof -
  define kept where "kept = filter (\<lambda>x. x \<notin> set UNWANTED_URL_PATH_PARTS)
                  (filter (\<lambda>x. x \<noteq> [] \<and> x \<noteq> ''.'') (split_str CHR ''/'' p))"
  have sp: "sanitize_path p = join ''/'' kept" by (simp only: sanitize_path_eq kept_def)
  have kept: "\<And>x. x \<in> set kept \<Longrightarrow> x \<noteq> [] \<and> CHR ''/'' \<notin> set x"
    by (auto simp: kept_def dest: split_str_no_sep)
  assume "sanitize_path p \<noteq> []"
  then have "kept \<noteq> []" by (auto simp: sp)
  then show ?thesis using join_ends[of kept "CHR ''/''" "''/''"] kept by (simp add: sp)
qed

lemma sanitize_path_again:
  "sanitize_path (sanitize_path p) = sanitize_path p"
  "sanitize_path (CHR ''/'' # sanitize_path p) = sanitize_path p"
proof -
  define kept where "kept = filter (\<lambda>x. x \<notin> set UNWANTED_URL_PATH_PARTS)
                  (filter (\<lambda>x. x \<noteq> [] \<and> x \<noteq> ''.'') (split_str CHR ''/'' p))"
  have sp: "sanitize_path p = join ''/'' kept" by (simp only: sanitize_path_eq kept_def)
  have spl: "split_str CHR ''/'' (sanitize_path p) = (if kept = [] then [[]] else kept)"
    by (simp only: split_sanitize_path kept_def Let_def)
  have f: "filter (\<lambda>x. x \<notin> set UNWANTED_URL_PATH_PARTS) (filter (\<lambda>x. x \<noteq> [] \<and> x \<noteq> ''.'') kept) = kept"
    by (auto simp: kept_def intro: filter_cong)
  have g: "filter (\<lambda>x. x \<notin> set UNWANTED_URL_PATH_PARTS)
      (filter (\<lambda>x. x \<noteq> [] \<and> x \<noteq> ''.'') (split_str CHR ''/'' (sanitize_path p))) = kept"
    using f by (cases "kept = []") (simp_all add: spl)
  show "sanitize_path (sanitize_path p) = sanitize_path p"
    by (rule trans[OF sanitize_path_eq], simp only: g, simp only: sp)
  have s1: "filter (\<lambda>x. x \<noteq> [] \<and> x \<noteq> ''.'') (split_str CHR ''/'' (CHR ''/'' # sanitize_path p))
      = filter (\<lambda>x. x \<noteq> [] \<and> x \<noteq> ''.'') (split_str CHR ''/'' (sanitize_path p))"
    by simp
  show "sanitize_path (CHR ''/'' # sanitize_path p) = sanitize_path p"
    by (rule trans[OF sanitize_path_eq], simp only: s1 g, simp only: sp)
qed

lemma sanitize_path_root: "sanitize_path ''/'' = []"
  by (simp add: sanitize_path_eq)

lemma sanitize_query_Nil: "sanitize_query p \<noteq> []"
  by (simp add: sanitize_query_def)

lemma urlunparse_form:
  assumes "sp = [] \<or> hd sp \<noteq> CHR ''/''" and "qry \<noteq> []"
  shows "urlunparse \<lparr>scheme = s, netloc = n, path = (if sp = [] then ''/'' else sp), params = prm,
                     query = qry, fragment = f\<rparr>
        = (if s = [] then [] else s @ '':'')
          @ (if n \<noteq> [] \<or> (s \<noteq> [] \<and> s \<in> set uses_netloc) then ''//'' @ n @ ''/'' @ sp
             else if sp = [] then ''/'' else sp)
          @ (if prm = [] then [] else '';'' @ prm) @ ''?'' @ qry @ (if f = [] then [] else ''#'' @ f)"
proof (cases sp)
  case Nil
  then show ?thesis using assms(2) by (simp add: urlunparse_def urlunsplit_def)
next
  case (Cons c sp')
  then have "c \<noteq> CHR ''/''" using assms(1) by simp
  then show ?thesis using Cons assms(2) by (simp add: urlunparse_def urlunsplit_def)
qed


lemma sanitize_url_form:
  assumes "url \<noteq> []" and "urlparse url = Inr parts"
  shows "sanitize_url url
      = Inr ((if scheme parts = [] then [] else scheme parts @ '':'')
          @ (if netloc parts \<noteq> [] \<or> (scheme parts \<noteq> [] \<and> scheme parts \<in> set uses_netloc)
             then ''//'' @ netloc parts @ ''/'' @ sanitize_path (path parts)
             else if sanitize_path (path parts) = [] then ''/'' else sanitize_path (path parts))
          @ (if params parts = [] then [] else '';'' @ params parts)
          @ ''?'' @ sanitize_query (sanitize_path (path parts))
          @ (if fragment parts = [] then [] else ''#'' @ fragment parts))"
proof -
  define sp where "sp = sanitize_path (path parts)"
  have hd: "sp = [] \<or> hd sp \<noteq> CHR ''/''" using sanitize_path_ends[of "path parts"] by (auto simp: sp_def)
  have "sanitize_url url = Inr (urlunparse \<lparr>scheme = scheme parts, netloc = netloc parts,
            path = (if sp = [] then ''/'' else sp), params = params parts,
            query = sanitize_query sp, fragment = fragment parts\<rparr>)"
    using assms by (cases parts) (simp add: sanitize_url_def Let_def sp_def)
  then have "sanitize_url url
      = Inr ((if scheme parts = [] then [] else scheme parts @ '':'')
          @ (if netloc parts \<noteq> [] \<or> (scheme parts \<noteq> [] \<and> scheme parts \<in> set uses_netloc)
             then ''//'' @ netloc parts @ ''/'' @ sp
             else if sp = [] then ''/'' else sp)
          @ (if params parts = [] then [] else '';'' @ params parts)
          @ ''?'' @ sanitize_query sp
          @ (if fragment parts = [] then [] else ''#'' @ fragment parts))"
    by (simp only: urlunparse_form[OF hd sanitize_query_Nil])
  then show ?thesis by (simp only: sp_def)
qed

text \<open>
  Claim C8.  For an input that \<open>urlparse\<close> accepts, the tuple given to
  \<open>urlunparse\<close> has the scheme, netloc, params and fragment of the parsed input; only its
  path and query are new.  The text returned is therefore: the scheme and a colon when
  there is a scheme; \<open>//\<close>, the netloc and a slash when there is a netloc (or a scheme
  that uses one); the sanitized path; \<open>;\<close> and the params when there are params; \<open>?\<close> and
  the new query; \<open>#\<close> and the fragment when there is a fragment.
\<close>

theorem sanitize_url_frame:
  assumes "url \<noteq> []" and "urlparse url = Inr parts"
  shows "sanitize_url url
      = Inr (urlunparse \<lparr>scheme = scheme parts, netloc = netloc parts,
               path = (if sanitize_path (path parts) = [] then ''/'' else sanitize_path (path parts)),
               params = params parts,
               query = sanitize_query (sanitize_path (path parts)),
               fragment = fragment parts\<rparr>)
    \<and> sanitize_url url
      = Inr ((if scheme parts = [] then [] else scheme parts @ '':'')
          @ (if netloc parts \<noteq> [] \<or> (scheme parts \<noteq> [] \<and> scheme parts \<in> set uses_netloc)
             then ''//'' @ netloc parts @ ''/'' @ sanitize_path (path parts)
             else if sanitize_path (path parts) = [] then ''/'' else sanitize_path (path parts))
          @ (if params parts = [] then [] else '';'' @ params parts)
          @ ''?'' @ sanitize_query (sanitize_path (path parts))
          @ (if fragment parts = [] then [] else ''#'' @ fragment parts))"
proof -
  have "sanitize_url url
      = Inr (urlunparse \<lparr>scheme = scheme parts, netloc = netloc parts,
               path = (if sanitize_path (path parts) = [] then ''/'' else sanitize_path (path parts)),
               params = params parts,
               query = sanitize_query (sanitize_path (path parts)),
               fragment = fragment parts\<rparr>)"
    using assms by (cases parts) (simp add: sanitize_url_def Let_def)
  then show ?thesis using sanitize_url_form[OF assms] by blast
qed

theorem sanitize_url_frame_witness:
  "''HTTPS://User@Example.org:8080/shaarli/feed;x=1?do=atom#top'' \<noteq> []
   \<and> urlparse ''HTTPS://User@Example.org:8080/shaarli/feed;x=1?do=atom#top''
       = Inr \<lparr>scheme = ''https'', netloc = ''User@Example.org:8080'', path = ''/shaarli/feed'',
              params = ''x=1'', query = ''do=atom'', fragment = ''top''\<rparr>
   \<and> sanitize_url ''HTTPS://User@Example.org:8080/shaarli/feed;x=1?do=atom#top''
       = Inr (urlunparse \<lparr>scheme = ''https'', netloc = ''User@Example.org:8080'', path = ''shaarli'',
              params = ''x=1'', query = ''do=rss'', fragment = ''top''\<rparr>)
   \<and> sanitize_url ''HTTPS://User@Example.org:8080/shaarli/feed;x=1?do=atom#top''
       = Inr ''https://User@Example.org:8080/shaarli;x=1?do=rss#top''"
proof -
  have n: "''HTTPS://User@Example.org:8080/shaarli/feed;x=1?do=atom#top'' \<noteq> []" by simp
  have p: "urlparse ''HTTPS://User@Example.org:8080/shaarli/feed;x=1?do=atom#top''
       = Inr \<lparr>scheme = ''https'', netloc = ''User@Example.org:8080'', path = ''/shaarli/feed'',
              params = ''x=1'', query = ''do=atom'', fragment = ''top''\<rparr>" by code_simp
  have sp: "sanitize_path ''/shaarli/feed'' = ''shaarli''" by code_simp
  have q: "sanitize_query ''shaarli'' = ''do=rss''" by code_simp
  have 1: "sanitize_url ''HTTPS://User@Example.org:8080/shaarli/feed;x=1?do=atom#top''
       = Inr (urlunparse \<lparr>scheme = ''https'', netloc = ''User@Example.org:8080'', path = ''shaarli'',
              params = ''x=1'', query = ''do=rss'', fragment = ''top''\<rparr>)"
    using conjunct1[OF sanitize_url_frame[OF n p]] by (simp add: sp q)
  have 2: "sanitize_url ''HTTPS://User@Example.org:8080/shaarli/feed;x=1?do=atom#top''
       = Inr ''https://User@Example.org:8080/shaarli;x=1?do=rss#top''" by code_simp
  show ?thesis using n p 1 2 by blast
qed

section \<open>What \<open>urlsplit\<close> returns\<close>

lemma scheme_chars_all:
  "list_all (\<lambda>c. lower_char c \<in> set scheme_chars \<and> lower_char (lower_char c) = lower_char c
                 \<and> (is_ascii_alpha c \<longrightarrow> is_ascii_alpha (lower_char c))
                 \<and> c \<noteq> CHR '':'' \<and> c \<noteq> CHR ''/'' \<and> c \<noteq> CHR ''?'' \<and> c \<noteq> CHR ''#''
                 \<and> c \<notin> set UNSAFE_URL_BYTES_TO_REMOVE) scheme_chars"
  by code_simp

lemma scheme_char_props:
  assumes "c \<in> set scheme_chars"
  shows "lower_char c \<in> set scheme_chars" "lower_char (lower_char c) = lower_char c"
    "is_ascii_alpha c \<Longrightarrow> is_ascii_alpha (lower_char c)"
    "c \<noteq> CHR '':''" "c \<noteq> CHR ''/''" "c \<noteq> CHR ''?''" "c \<noteq> CHR ''#''"
    "c \<notin> set UNSAFE_URL_BYTES_TO_REMOVE"
  using assms scheme_chars_all unfolding list_all_iff by blast+

lemma alpha_not_C0: "is_ascii_alpha c \<Longrightarrow> \<not> WHATWG_C0_CONTROL_OR_SPACE c"
  by (auto simp: is_ascii_alpha_def WHATWG_C0_CONTROL_OR_SPACE_def Let_def)

lemma lower_scheme:
  assumes "t \<noteq> []" and "is_ascii_alpha (hd t)" and "list_all (\<lambda>c. c \<in> set scheme_chars) t"
  shows "lower t \<noteq> []" "is_ascii_alpha (hd (lower t))" "list_all (\<lambda>c. c \<in> set scheme_chars) (lower t)"
    "lower (lower t) = lower t"
proof -
  show "lower t \<noteq> []" using assms(1) by (simp add: lower_def)
  have "hd t \<in> set scheme_chars" using assms(1,3) by (cases t) (auto simp: list_all_iff)
  then show "is_ascii_alpha (hd (lower t))"
    using assms(1,2) scheme_char_props(3)[of "hd t"] by (simp add: lower_def hd_map)
  show "list_all (\<lambda>c. c \<in> set scheme_chars) (lower t)"
    using assms(3) scheme_char_props(1) by (auto simp: lower_def list_all_iff)
  show "lower (lower t) = lower t"
    using assms(3) scheme_char_props(2) by (auto simp: lower_def list_all_iff)
qed


lemma urlsplit_obtain:
  obtains U hs s r1 n r2 r3 f p q where
    "U = filter (\<lambda>c. c \<notin> set UNSAFE_URL_BYTES_TO_REMOVE) (dropWhile WHATWG_C0_CONTROL_OR_SPACE u0)"
    "hs = (CHR '':'' \<in> set U \<and> takeWhile (\<lambda>c. c \<noteq> CHR '':'') U \<noteq> [] \<and> is_ascii_alpha (hd U)
           \<and> list_all (\<lambda>c. c \<in> set scheme_chars) (takeWhile (\<lambda>c. c \<noteq> CHR '':'') U))"
    "s = (if hs then lower (takeWhile (\<lambda>c. c \<noteq> CHR '':'') U) else [])"
    "r1 = (if hs then drop 1 (dropWhile (\<lambda>c. c \<noteq> CHR '':'') U) else U)"
    "n = (if take 2 r1 = ''//''
          then takeWhile (\<lambda>c. c \<noteq> CHR ''/'' \<and> c \<noteq> CHR ''?'' \<and> c \<noteq> CHR ''#'') (drop 2 r1) else [])"
    "r2 = (if take 2 r1 = ''//''
           then dropWhile (\<lambda>c. c \<noteq> CHR ''/'' \<and> c \<noteq> CHR ''?'' \<and> c \<noteq> CHR ''#'') (drop 2 r1) else r1)"
    "r3 = takeWhile (\<lambda>c. c \<noteq> CHR ''#'') r2"
    "f = drop 1 (dropWhile (\<lambda>c. c \<noteq> CHR ''#'') r2)"
    "p = takeWhile (\<lambda>c. c \<noteq> CHR ''?'') r3"
    "q = drop 1 (dropWhile (\<lambda>c. c \<noteq> CHR ''?'') r3)"
    "urlsplit u0 =
       (if (CHR ''['' \<in> set n \<and> CHR '']'' \<notin> set n) \<or> (CHR '']'' \<in> set n \<and> CHR ''['' \<notin> set n)
            \<or> (CHR ''['' \<in> set n \<and> CHR '']'' \<in> set n \<and> \<not> check_bracketed_netloc n)
        then Inl ValueError else Inr (s, n, p, q, f))"
proof -
  define U where "U = filter (\<lambda>c. c \<notin> set UNSAFE_URL_BYTES_TO_REMOVE) (dropWhile WHATWG_C0_CONTROL_OR_SPACE u0)"
  define hs where "hs = (CHR '':'' \<in> set U \<and> takeWhile (\<lambda>c. c \<noteq> CHR '':'') U \<noteq> []
                        \<and> is_ascii_alpha (hd U)
                        \<and> list_all (\<lambda>c. c \<in> set scheme_chars) (takeWhile (\<lambda>c. c \<noteq> CHR '':'') U))"
  define s where "s = (if hs then lower (takeWhile (\<lambda>c. c \<noteq> CHR '':'') U) else [])"
  define r1 where "r1 = (if hs then drop 1 (dropWhile (\<lambda>c. c \<noteq> CHR '':'') U) else U)"
  define n where "n = (if take 2 r1 = ''//''
               then takeWhile (\<lambda>c. c \<noteq> CHR ''/'' \<and> c \<noteq> CHR ''?'' \<and> c \<noteq> CHR ''#'') (drop 2 r1) else [])"
  define r2 where "r2 = (if take 2 r1 = ''//''
                then dropWhile (\<lambda>c. c \<noteq> CHR ''/'' \<and> c \<noteq> CHR ''?'' \<and> c \<noteq> CHR ''#'') (drop 2 r1) else r1)"
  define r3 where "r3 = takeWhile (\<lambda>c. c \<noteq> CHR ''#'') r2"
  define f where "f = drop 1 (dropWhile (\<lambda>c. c \<noteq> CHR ''#'') r2)"
  define p where "p = takeWhile (\<lambda>c. c \<noteq> CHR ''?'') r3"
  define q where "q = drop 1 (dropWhile (\<lambda>c. c \<noteq> CHR ''?'') r3)"
  have "urlsplit u0 =
       (if (CHR ''['' \<in> set n \<and> CHR '']'' \<notin> set n) \<or> (CHR '']'' \<in> set n \<and> CHR ''['' \<notin> set n)
            \<or> (CHR ''['' \<in> set n \<and> CHR '']'' \<in> set n \<and> \<not> check_bracketed_netloc n)
        then Inl ValueError else Inr (s, n, p, q, f))"
    by (simp only: urlsplit_unfold Let_def n_def r2_def r3_def f_def p_def q_def s_def r1_def hs_def U_def)
  then show thesis
    using that[of U hs s r1 n r2 r3 f p q] U_def hs_def s_def r1_def n_def r2_def r3_def f_def p_def q_def
    by blast
qed

lemma urlsplit_props:
  assumes "urlsplit u = Inr (s, n, p, q, f)"
  shows "s \<noteq> [] \<Longrightarrow> is_ascii_alpha (hd s) \<and> list_all (\<lambda>c. c \<in> set scheme_chars) s \<and> lower s = s"
    and "\<And>c. c \<in> set n \<Longrightarrow> c \<noteq> CHR ''/'' \<and> c \<noteq> CHR ''?'' \<and> c \<noteq> CHR ''#''"
    and "\<not> ((CHR ''['' \<in> set n \<and> CHR '']'' \<notin> set n) \<or> (CHR '']'' \<in> set n \<and> CHR ''['' \<notin> set n)
            \<or> (CHR ''['' \<in> set n \<and> CHR '']'' \<in> set n \<and> \<not> check_bracketed_netloc n))"
    and "CHR ''?'' \<notin> set p" and "CHR ''#'' \<notin> set p" and "CHR ''#'' \<notin> set q"
    and "\<And>c. c \<in> set n \<union> set p \<union> set q \<union> set f \<Longrightarrow> c \<notin> set UNSAFE_URL_BYTES_TO_REMOVE"
proof -
  obtain U hs s' r1 n' r2 r3 f' p' q' where
    U: "U = filter (\<lambda>c. c \<notin> set UNSAFE_URL_BYTES_TO_REMOVE) (dropWhile WHATWG_C0_CONTROL_OR_SPACE u)"
    and hs: "hs = (CHR '':'' \<in> set U \<and> takeWhile (\<lambda>c. c \<noteq> CHR '':'') U \<noteq> [] \<and> is_ascii_alpha (hd U)
           \<and> list_all (\<lambda>c. c \<in> set scheme_chars) (takeWhile (\<lambda>c. c \<noteq> CHR '':'') U))"
    and s': "s' = (if hs then lower (takeWhile (\<lambda>c. c \<noteq> CHR '':'') U) else [])"
    and r1: "r1 = (if hs then drop 1 (dropWhile (\<lambda>c. c \<noteq> CHR '':'') U) else U)"
    and n': "n' = (if take 2 r1 = ''//''
          then takeWhile (\<lambda>c. c \<noteq> CHR ''/'' \<and> c \<noteq> CHR ''?'' \<and> c \<noteq> CHR ''#'') (drop 2 r1) else [])"
    and r2: "r2 = (if take 2 r1 = ''//''
           then dropWhile (\<lambda>c. c \<noteq> CHR ''/'' \<and> c \<noteq> CHR ''?'' \<and> c \<noteq> CHR ''#'') (drop 2 r1) else r1)"
    and r3: "r3 = takeWhile (\<lambda>c. c \<noteq> CHR ''#'') r2"
    and f': "f' = drop 1 (dropWhile (\<lambda>c. c \<noteq> CHR ''#'') r2)"
    and p': "p' = takeWhile (\<lambda>c. c \<noteq> CHR ''?'') r3"
    and q': "q' = drop 1 (dropWhile (\<lambda>c. c \<noteq> CHR ''?'') r3)"
    and res: "urlsplit u =
       (if (CHR ''['' \<in> set n' \<and> CHR '']'' \<notin> set n') \<or> (CHR '']'' \<in> set n' \<and> CHR ''['' \<notin> set n')
            \<or> (CHR ''['' \<in> set n' \<and> CHR '']'' \<in> set n' \<and> \<not> check_bracketed_netloc n')
        then Inl ValueError else Inr (s', n', p', q', f'))"
    by (rule urlsplit_obtain)
  have eqs: "s = s'" "n = n'" "p = p'" "q = q'" "f = f'"
    and ok: "\<not> ((CHR ''['' \<in> set n' \<and> CHR '']'' \<notin> set n') \<or> (CHR '']'' \<in> set n' \<and> CHR ''['' \<notin> set n')
            \<or> (CHR ''['' \<in> set n' \<and> CHR '']'' \<in> set n' \<and> \<not> check_bracketed_netloc n'))"
    using assms unfolding res by (auto split: if_splits)
  show "\<not> ((CHR ''['' \<in> set n \<and> CHR '']'' \<notin> set n) \<or> (CHR '']'' \<in> set n \<and> CHR ''['' \<notin> set n)
            \<or> (CHR ''['' \<in> set n \<and> CHR '']'' \<in> set n \<and> \<not> check_bracketed_netloc n))"
    using ok unfolding eqs by blast
  have safeU: "\<And>c. c \<in> set U \<Longrightarrow> c \<notin> set UNSAFE_URL_BYTES_TO_REMOVE" by (simp add: U)
  have r1U: "set r1 \<subseteq> set U" using set_dropWhileD[of _ "\<lambda>c. c \<noteq> CHR '':''" U]
    by (auto simp: r1 dest!: in_set_dropD)
  have r2U: "set r2 \<subseteq> set r1"
    by (auto simp: r2 dest!: set_dropWhileD in_set_dropD)
  have nU: "set n' \<subseteq> set r1"
    by (auto simp: n' dest!: set_takeWhileD in_set_dropD)
  have r3U: "set r3 \<subseteq> set r2" by (auto simp: r3 dest: set_takeWhileD)
  have fU: "set f' \<subseteq> set r2" by (auto simp: f' dest!: set_dropWhileD in_set_dropD)
  have pU: "set p' \<subseteq> set r3" by (auto simp: p' dest: set_takeWhileD)
  have qU: "set q' \<subseteq> set r3" by (auto simp: q' dest!: set_dropWhileD in_set_dropD)
  show "c \<in> set n \<union> set p \<union> set q \<union> set f \<Longrightarrow> c \<notin> set UNSAFE_URL_BYTES_TO_REMOVE" for c
    using safeU r1U r2U nU r3U fU pU qU unfolding eqs by blast
  show "c \<in> set n \<Longrightarrow> c \<noteq> CHR ''/'' \<and> c \<noteq> CHR ''?'' \<and> c \<noteq> CHR ''#''" for c
    unfolding eqs n' by (auto dest: set_takeWhileD split: if_splits)
  show "CHR ''#'' \<notin> set p" unfolding eqs using pU by (auto simp: r3 dest: set_takeWhileD)
  show "CHR ''?'' \<notin> set p" unfolding eqs p' by (auto dest: set_takeWhileD)
  show "CHR ''#'' \<notin> set q" unfolding eqs using qU by (auto simp: r3 dest: set_takeWhileD)
  show "is_ascii_alpha (hd s) \<and> list_all (\<lambda>c. c \<in> set scheme_chars) s \<and> lower s = s" if "s \<noteq> []"
  proof -
    have h: hs using that unfolding eqs s' by (auto split: if_splits)
    define t where "t = takeWhile (\<lambda>c. c \<noteq> CHR '':'') U"
    have t: "t \<noteq> []" "list_all (\<lambda>c. c \<in> set scheme_chars) t" using h by (auto simp: hs t_def)
    have "hd t = hd U" using t(1) by (cases U) (auto simp: t_def split: if_splits)
    then have "is_ascii_alpha (hd t)" using h by (simp add: hs)
    then show ?thesis using lower_scheme[OF t(1) _ t(2)] h unfolding eqs s' t_def by simp
  qed
qed

section \<open>Parsing a rebuilt URL\<close>

lemma tw_app: "(\<And>x. x \<in> set xs \<Longrightarrow> P x) \<Longrightarrow> \<not> P y \<Longrightarrow> takeWhile P (xs @ y # ys) = xs"
  by (induction xs) auto

lemma dw_app: "(\<And>x. x \<in> set xs \<Longrightarrow> P x) \<Longrightarrow> \<not> P y \<Longrightarrow> dropWhile P (xs @ y # ys) = y # ys"
  by (induction xs) auto

lemma tw_all: "(\<And>x. x \<in> set xs \<Longrightarrow> P x) \<Longrightarrow> takeWhile P xs = xs"
  by (induction xs) auto

lemma dw_all: "(\<And>x. x \<in> set xs \<Longrightarrow> P x) \<Longrightarrow> dropWhile P xs = []"
  by (induction xs) auto

lemma take2_append_query: "take 2 (B @ CHR ''?'' # rest) = ''//'' \<Longrightarrow> take 2 B = ''//''"
  by (cases B; cases "tl B") auto

lemma urlsplit_rebuilt:
  assumes S: "s \<noteq> [] \<Longrightarrow> is_ascii_alpha (hd s) \<and> list_all (\<lambda>c. c \<in> set scheme_chars) s \<and> lower s = s"
    and N1: "\<And>c. c \<in> set n \<Longrightarrow> c \<noteq> CHR ''/'' \<and> c \<noteq> CHR ''?'' \<and> c \<noteq> CHR ''#''"
    and N2: "\<not> ((CHR ''['' \<in> set n \<and> CHR '']'' \<notin> set n) \<or> (CHR '']'' \<in> set n \<and> CHR ''['' \<notin> set n)
            \<or> (CHR ''['' \<in> set n \<and> CHR '']'' \<in> set n \<and> \<not> check_bracketed_netloc n))"
    and B: "CHR ''?'' \<notin> set B" "CHR ''#'' \<notin> set B"
    and Q: "CHR ''#'' \<notin> set qry"
    and safe: "\<And>c. c \<in> set n \<union> set B \<union> set qry \<union> set f \<Longrightarrow> c \<notin> set UNSAFE_URL_BYTES_TO_REMOVE"
    and shape: "(A = ''//'' @ n @ B \<and> (B = [] \<or> hd B = CHR ''/''))
                \<or> (n = [] \<and> s \<noteq> [] \<and> A = B \<and> take 2 B \<noteq> ''//'')"
  shows "urlsplit ((if s = [] then [] else s @ '':'') @ A @ ''?'' @ qry @ (if f = [] then [] else ''#'' @ f))
         = Inr (s, n, B, qry, f)"
proof -
  define F where "F = (if f = [] then [] else ''#'' @ f)"
  define rest where "rest = A @ ''?'' @ qry @ F"
  define v where "v = (if s = [] then [] else s @ '':'') @ rest"
  obtain U hs s' r1 n' r2 r3 f' p' q' where
    U: "U = filter (\<lambda>c. c \<notin> set UNSAFE_URL_BYTES_TO_REMOVE) (dropWhile WHATWG_C0_CONTROL_OR_SPACE v)"
    and hs: "hs = (CHR '':'' \<in> set U \<and> takeWhile (\<lambda>c. c \<noteq> CHR '':'') U \<noteq> [] \<and> is_ascii_alpha (hd U)
           \<and> list_all (\<lambda>c. c \<in> set scheme_chars) (takeWhile (\<lambda>c. c \<noteq> CHR '':'') U))"
    and s': "s' = (if hs then lower (takeWhile (\<lambda>c. c \<noteq> CHR '':'') U) else [])"
    and r1: "r1 = (if hs then drop 1 (dropWhile (\<lambda>c. c \<noteq> CHR '':'') U) else U)"
    and n': "n' = (if take 2 r1 = ''//''
          then takeWhile (\<lambda>c. c \<noteq> CHR ''/'' \<and> c \<noteq> CHR ''?'' \<and> c \<noteq> CHR ''#'') (drop 2 r1) else [])"
    and r2: "r2 = (if take 2 r1 = ''//''
           then dropWhile (\<lambda>c. c \<noteq> CHR ''/'' \<and> c \<noteq> CHR ''?'' \<and> c \<noteq> CHR ''#'') (drop 2 r1) else r1)"
    and r3: "r3 = takeWhile (\<lambda>c. c \<noteq> CHR ''#'') r2"
    and f': "f' = drop 1 (dropWhile (\<lambda>c. c \<noteq> CHR ''#'') r2)"
    and p': "p' = takeWhile (\<lambda>c. c \<noteq> CHR ''?'') r3"
    and q': "q' = drop 1 (dropWhile (\<lambda>c. c \<noteq> CHR ''?'') r3)"
    and res: "urlsplit v =
       (if (CHR ''['' \<in> set n' \<and> CHR '']'' \<notin> set n') \<or> (CHR '']'' \<in> set n' \<and> CHR ''['' \<notin> set n')
            \<or> (CHR ''['' \<in> set n' \<and> CHR '']'' \<in> set n' \<and> \<not> check_bracketed_netloc n')
        then Inl ValueError else Inr (s', n', p', q', f'))"
    by (rule urlsplit_obtain)
  have sch: "\<And>c. c \<in> set s \<Longrightarrow> c \<in> set scheme_chars"
    using S by (cases "s = []") (auto simp: list_all_iff)
  have s_colon: "\<And>c. c \<in> set s \<Longrightarrow> c \<noteq> CHR '':''" using sch scheme_char_props(4) by blast
  have s_safe: "\<And>c. c \<in> set s \<Longrightarrow> c \<notin> set UNSAFE_URL_BYTES_TO_REMOVE"
    using sch scheme_char_props(8) by blast
  have nS: "\<forall>c\<in>set n. c \<notin> set UNSAFE_URL_BYTES_TO_REMOVE" using safe by blast
  have BS: "\<forall>c\<in>set B. c \<notin> set UNSAFE_URL_BYTES_TO_REMOVE" using safe by blast
  have qS: "\<forall>c\<in>set qry. c \<notin> set UNSAFE_URL_BYTES_TO_REMOVE" using safe by blast
  have fS: "\<forall>c\<in>set f. c \<notin> set UNSAFE_URL_BYTES_TO_REMOVE" using safe by blast
  have cS: "CHR ''/'' \<notin> set UNSAFE_URL_BYTES_TO_REMOVE" "CHR ''?'' \<notin> set UNSAFE_URL_BYTES_TO_REMOVE"
    "CHR ''#'' \<notin> set UNSAFE_URL_BYTES_TO_REMOVE" "CHR '':'' \<notin> set UNSAFE_URL_BYTES_TO_REMOVE"
    by (simp_all add: UNSAFE_URL_BYTES_TO_REMOVE_def)
  have A_safe: "\<forall>c\<in>set A. c \<notin> set UNSAFE_URL_BYTES_TO_REMOVE"
    using shape nS BS cS by auto
  have rest_safe: "\<forall>c\<in>set rest. c \<notin> set UNSAFE_URL_BYTES_TO_REMOVE"
    using A_safe qS fS cS by (auto simp: rest_def F_def)
  have v_safe: "\<forall>c\<in>set v. c \<notin> set UNSAFE_URL_BYTES_TO_REMOVE"
    using rest_safe s_safe cS by (auto simp: v_def)
  have hdv: "v \<noteq> [] \<and> \<not> WHATWG_C0_CONTROL_OR_SPACE (hd v)"
  proof (cases "s = []")
    case True
    then have "A = ''//'' @ n @ B" using shape by blast
    then show ?thesis using True by (simp add: v_def rest_def WHATWG_C0_CONTROL_OR_SPACE_def)
  next
    case False
    then have "hd v = hd s" by (simp add: v_def)
    then show ?thesis using False S alpha_not_C0 by (simp add: v_def)
  qed
  then have "dropWhile WHATWG_C0_CONTROL_OR_SPACE v = v" by (cases v) auto
  then have Uv: "U = v" using v_safe by (simp add: U filter_id_conv)
  have hs_eq: "hs = (s \<noteq> [])"
  proof (cases "s = []")
    case True
    then have "A = ''//'' @ n @ B" using shape by blast
    then have "hd U = CHR ''/''" using True by (simp add: Uv v_def rest_def)
    then have "\<not> is_ascii_alpha (hd U)" by (simp add: is_ascii_alpha_def)
    then show ?thesis using True by (simp add: hs)
  next
    case False
    have v: "v = s @ CHR '':'' # rest" using False by (simp add: v_def)
    have tw: "takeWhile (\<lambda>c. c \<noteq> CHR '':'') v = s"
      unfolding v using tw_app[of s "\<lambda>c. c \<noteq> CHR '':''" "CHR '':''" rest] s_colon by simp
    have "hd v = hd s" using False by (simp add: v)
    then show ?thesis using False S tw by (simp add: hs Uv v)
  qed
  have s_eq: "s' = s"
  proof (cases "s = []")
    case True then show ?thesis by (simp add: s' hs_eq)
  next
    case False
    have v: "v = s @ CHR '':'' # rest" using False by (simp add: v_def)
    have tw: "takeWhile (\<lambda>c. c \<noteq> CHR '':'') v = s"
      unfolding v using tw_app[of s "\<lambda>c. c \<noteq> CHR '':''" "CHR '':''" rest] s_colon by simp
    show ?thesis using False S by (simp add: s' hs_eq Uv tw)
  qed
  have r1_eq: "r1 = rest"
  proof (cases "s = []")
    case True then show ?thesis by (simp add: r1 hs_eq Uv v_def)
  next
    case False
    have v: "v = s @ CHR '':'' # rest" using False by (simp add: v_def)
    have dw: "dropWhile (\<lambda>c. c \<noteq> CHR '':'') v = CHR '':'' # rest"
      unfolding v using dw_app[of s "\<lambda>c. c \<noteq> CHR '':''" "CHR '':''" rest] s_colon by simp
    show ?thesis using False by (simp add: r1 hs_eq Uv dw)
  qed
  define tail where "tail = B @ CHR ''?'' # qry @ F"
  have nr: "n' = n \<and> r2 = tail"
  proof -
    consider "A = ''//'' @ n @ B" "B = [] \<or> hd B = CHR ''/''"
      | "n = []" "A = B" "take 2 B \<noteq> ''//''" using shape by blast
    then show ?thesis
    proof cases
      case 1
      have r: "r1 = ''//'' @ n @ tail" by (simp add: r1_eq rest_def 1 tail_def)
      have "tail \<noteq> [] \<and> \<not> (hd tail \<noteq> CHR ''/'' \<and> hd tail \<noteq> CHR ''?'' \<and> hd tail \<noteq> CHR ''#'')"
        using 1(2) by (cases B) (auto simp: tail_def)
      then obtain y ys where t: "tail = y # ys" "\<not> (y \<noteq> CHR ''/'' \<and> y \<noteq> CHR ''?'' \<and> y \<noteq> CHR ''#'')"
        by (cases tail) auto
      have "takeWhile (\<lambda>c. c \<noteq> CHR ''/'' \<and> c \<noteq> CHR ''?'' \<and> c \<noteq> CHR ''#'') (n @ y # ys) = n"
        using tw_app[of n "\<lambda>c. c \<noteq> CHR ''/'' \<and> c \<noteq> CHR ''?'' \<and> c \<noteq> CHR ''#''" y ys] N1 t(2) by blast
      moreover have "dropWhile (\<lambda>c. c \<noteq> CHR ''/'' \<and> c \<noteq> CHR ''?'' \<and> c \<noteq> CHR ''#'') (n @ y # ys) = y # ys"
        using dw_app[of n "\<lambda>c. c \<noteq> CHR ''/'' \<and> c \<noteq> CHR ''?'' \<and> c \<noteq> CHR ''#''" y ys] N1 t(2) by blast
      ultimately show ?thesis unfolding n' r2 r t by simp
    next
      case 2
      have r: "r1 = B @ CHR ''?'' # qry @ F" by (simp add: r1_eq rest_def 2)
      have "take 2 r1 \<noteq> ''//''" unfolding r using take2_append_query 2(3) by blast
      then show ?thesis using 2(1) r by (simp add: n' r2 tail_def)
    qed
  qed
  have pre_hash: "\<And>c. c \<in> set (B @ CHR ''?'' # qry) \<Longrightarrow> c \<noteq> CHR ''#''" using B Q by auto
  have frag: "r3 = B @ CHR ''?'' # qry \<and> f' = f"
  proof (cases "f = []")
    case True
    then have t: "tail = B @ CHR ''?'' # qry" by (simp add: tail_def F_def)
    have tw1: "takeWhile (\<lambda>c. c \<noteq> CHR ''#'') (B @ CHR ''?'' # qry) = B @ CHR ''?'' # qry"
      using tw_all[of "B @ CHR ''?'' # qry" "\<lambda>c. c \<noteq> CHR ''#''"] pre_hash by blast
    have dw1: "dropWhile (\<lambda>c. c \<noteq> CHR ''#'') (B @ CHR ''?'' # qry) = []"
      using dw_all[of "B @ CHR ''?'' # qry" "\<lambda>c. c \<noteq> CHR ''#''"] pre_hash by blast
    show ?thesis unfolding r3 f' conjunct2[OF nr] t tw1 dw1 using True by simp
  next
    case False
    then have t: "tail = (B @ CHR ''?'' # qry) @ CHR ''#'' # f" by (simp add: tail_def F_def)
    have tw1: "takeWhile (\<lambda>c. c \<noteq> CHR ''#'') ((B @ CHR ''?'' # qry) @ CHR ''#'' # f) = B @ CHR ''?'' # qry"
      using tw_app[of "B @ CHR ''?'' # qry" "\<lambda>c. c \<noteq> CHR ''#''" "CHR ''#''" f] pre_hash by blast
    have dw1: "dropWhile (\<lambda>c. c \<noteq> CHR ''#'') ((B @ CHR ''?'' # qry) @ CHR ''#'' # f) = CHR ''#'' # f"
      using dw_app[of "B @ CHR ''?'' # qry" "\<lambda>c. c \<noteq> CHR ''#''" "CHR ''#''" f] pre_hash by blast
    show ?thesis unfolding r3 f' conjunct2[OF nr] t tw1 dw1 by simp
  qed
  have Bq: "\<And>c. c \<in> set B \<Longrightarrow> c \<noteq> CHR ''?''" using B by auto
  have tw2: "takeWhile (\<lambda>c. c \<noteq> CHR ''?'') (B @ CHR ''?'' # qry) = B"
    using tw_app[of B "\<lambda>c. c \<noteq> CHR ''?''" "CHR ''?''" qry] Bq by blast
  have dw2: "dropWhile (\<lambda>c. c \<noteq> CHR ''?'') (B @ CHR ''?'' # qry) = CHR ''?'' # qry"
    using dw_app[of B "\<lambda>c. c \<noteq> CHR ''?''" "CHR ''?''" qry] Bq by blast
  have pq: "p' = B \<and> q' = qry" unfolding p' q' conjunct1[OF frag] tw2 dw2 by simp
  have "urlsplit v = Inr (s, n, B, qry, f)" using N2 by (simp add: res nr s_eq pq frag)
  then show ?thesis by (simp add: v_def rest_def F_def)
qed

section \<open>\<open>_splitparams\<close>\<close>

lemma last_occurrence:
  assumes "c \<in> set url"
  obtains a b where "url = a @ c # b" "c \<notin> set b" "nat (rfind c url) = length a"
proof -
  define t where "t = takeWhile (\<lambda>x. x \<noteq> c) (rev url)"
  define d where "d = dropWhile (\<lambda>x. x \<noteq> c) (rev url)"
  have "c \<in> set (rev url)" using assms by simp
  then have "d \<noteq> []" by (auto simp: d_def)
  moreover have "d \<noteq> [] \<Longrightarrow> hd d = c" using hd_dropWhile[of "\<lambda>x. x \<noteq> c" "rev url"] by (simp add: d_def)
  ultimately obtain d' where d: "d = c # d'" by (cases d) auto
  have "rev url = t @ d" by (simp add: t_def d_def)
  then have "url = rev d @ rev t" by (metis rev_append rev_rev_ident)
  then have u: "url = rev d' @ c # rev t" by (simp add: d)
  have ct: "c \<notin> set (rev t)" by (auto simp: t_def dest: set_takeWhileD)
  have "rfind c url = int (length url) - 1 - int (length t)" using assms by (simp add: rfind_def t_def)
  then have "nat (rfind c url) = length (rev d')" by (simp add: u)
  then show thesis using that[of "rev d'" "rev t"] u ct by blast
qed

lemma splitparams_slash:
  assumes "CHR ''/'' \<notin> set b"
  shows "splitparams (a @ CHR ''/'' # b) =
     (if CHR '';'' \<in> set b
      then (a @ CHR ''/'' # takeWhile (\<lambda>c. c \<noteq> CHR '';'') b, drop 1 (dropWhile (\<lambda>c. c \<noteq> CHR '';'') b))
      else (a @ CHR ''/'' # b, []))"
proof -
  define url where "url = a @ CHR ''/'' # b"
  have sl: "CHR ''/'' \<in> set url" by (simp add: url_def)
  have nb: "\<forall>x\<in>set (rev b). x \<noteq> CHR ''/''" using assms by auto
  have "takeWhile (\<lambda>x. x \<noteq> CHR ''/'') (rev b @ CHR ''/'' # rev a) = rev b"
    using tw_app[of "rev b" "\<lambda>x. x \<noteq> CHR ''/''" "CHR ''/''" "rev a"] nb by blast
  then have "takeWhile (\<lambda>x. x \<noteq> CHR ''/'') (rev url) = rev b" by (simp add: url_def)
  then have "rfind CHR ''/'' url = int (length a)" using sl by (simp add: rfind_def) (simp add: url_def)
  then have k: "nat (rfind CHR ''/'' url) = length a" by simp
  have dr: "drop (length a) url = CHR ''/'' # b" by (simp add: url_def)
  show ?thesis
  proof (cases "CHR '';'' \<in> set b")
    case True
    define m where "m = length (takeWhile (\<lambda>c. c \<noteq> CHR '';'') b)"
    have i: "find_from CHR '';'' (length a) url = int (length a + Suc m)"
      using True by (simp add: find_from_def dr m_def)
    have t: "take (length a + Suc m) url = a @ CHR ''/'' # takeWhile (\<lambda>c. c \<noteq> CHR '';'') b"
      by (simp add: url_def m_def takeWhile_eq_take[symmetric])
    have "drop (Suc m) b = drop 1 (drop m b)" by simp
    then have "drop (Suc m) b = drop 1 (dropWhile (\<lambda>c. c \<noteq> CHR '';'') b)"
      by (simp only: m_def dropWhile_eq_drop[symmetric])
    then have d: "drop (length a + Suc m + 1) url = drop 1 (dropWhile (\<lambda>c. c \<noteq> CHR '';'') b)"
      by (simp add: url_def)
    have "splitparams url =
        (let i = find_from CHR '';'' (length a) url
         in if CHR ''/'' \<in> set url \<and> i < 0 then (url, [])
            else if i < 0 then (butlast url, url)
            else (take (nat i) url, drop (nat i + 1) url))"
      using sl by (simp add: splitparams_def k)
    also have "\<dots> = (take (length a + Suc m) url, drop (length a + Suc m + 1) url)"
      unfolding i Let_def by (simp only: nat_int of_nat_less_0_iff) simp
    finally have "splitparams url = (take (length a + Suc m) url, drop (length a + Suc m + 1) url)" .
    then show ?thesis using True unfolding t d by (simp add: url_def)
  next
    case False
    then have "find_from CHR '';'' (length a) url = - 1" by (simp add: find_from_def dr)
    then have "splitparams url = (url, [])" using sl by (simp add: splitparams_def k Let_def)
    then show ?thesis using False by (simp add: url_def)
  qed
qed

lemma splitparams_noslash:
  assumes "CHR ''/'' \<notin> set url" and "CHR '';'' \<in> set url"
  shows "splitparams url = (takeWhile (\<lambda>c. c \<noteq> CHR '';'') url, drop 1 (dropWhile (\<lambda>c. c \<noteq> CHR '';'') url))"
proof -
  have "find_str CHR '';'' url \<ge> 0" using assms(2) by (simp add: find_str_def find_from_def)
  then show ?thesis using assms
    by (simp add: splitparams_def Let_def take_find drop_find_Suc)
qed

lemma splitparams_subset:
  assumes "CHR '';'' \<in> set url"
  shows "set (fst (splitparams url)) \<subseteq> set url" "set (snd (splitparams url)) \<subseteq> set url"
    "CHR ''/'' \<notin> set (snd (splitparams url))"
proof -
  have "set (fst (splitparams url)) \<subseteq> set url \<and> set (snd (splitparams url)) \<subseteq> set url
      \<and> CHR ''/'' \<notin> set (snd (splitparams url))"
  proof (cases "CHR ''/'' \<in> set url")
    case True
    obtain a b where ab: "url = a @ CHR ''/'' # b" "CHR ''/'' \<notin> set b"
      using last_occurrence[OF True] by blast
    have "set (takeWhile (\<lambda>c. c \<noteq> CHR '';'') b) \<subseteq> set b" by (auto dest: set_takeWhileD)
    moreover have "set (drop 1 (dropWhile (\<lambda>c. c \<noteq> CHR '';'') b)) \<subseteq> set b"
      by (auto dest!: in_set_dropD set_dropWhileD)
    ultimately show ?thesis using ab(2) unfolding ab(1) splitparams_slash[OF ab(2)] by auto
  next
    case False
    have "set (takeWhile (\<lambda>c. c \<noteq> CHR '';'') url) \<subseteq> set url" by (auto dest: set_takeWhileD)
    moreover have "set (drop 1 (dropWhile (\<lambda>c. c \<noteq> CHR '';'') url)) \<subseteq> set url"
      by (auto dest!: in_set_dropD set_dropWhileD)
    ultimately show ?thesis using False unfolding splitparams_noslash[OF False assms] by auto
  qed
  then show "set (fst (splitparams url)) \<subseteq> set url" "set (snd (splitparams url)) \<subseteq> set url"
    "CHR ''/'' \<notin> set (snd (splitparams url))" by blast+
qed

lemma splitparams_rebuilt:
  assumes "CHR '';'' \<notin> set Bp" and "CHR ''/'' \<notin> set prm"
  shows "splitparams (Bp @ CHR '';'' # prm) = (Bp, prm)"
proof (cases "CHR ''/'' \<in> set Bp")
  case True
  obtain a b where ab: "Bp = a @ CHR ''/'' # b" "CHR ''/'' \<notin> set b"
    using last_occurrence[OF True] by blast
  have nb: "\<forall>x\<in>set b. x \<noteq> CHR '';''" using assms(1) ab(1) by auto
  have 1: "CHR ''/'' \<notin> set (b @ CHR '';'' # prm)" using ab(2) assms(2) by simp
  have tw: "takeWhile (\<lambda>c. c \<noteq> CHR '';'') (b @ CHR '';'' # prm) = b"
    using tw_app[of b "\<lambda>c. c \<noteq> CHR '';''" "CHR '';''" prm] nb by blast
  have dw: "dropWhile (\<lambda>c. c \<noteq> CHR '';'') (b @ CHR '';'' # prm) = CHR '';'' # prm"
    using dw_app[of b "\<lambda>c. c \<noteq> CHR '';''" "CHR '';''" prm] nb by blast
  have "splitparams (a @ CHR ''/'' # (b @ CHR '';'' # prm)) = (a @ CHR ''/'' # b, prm)"
    unfolding splitparams_slash[OF 1] tw dw by simp
  then show ?thesis by (simp add: ab(1))
next
  case False
  have nb: "\<forall>x\<in>set Bp. x \<noteq> CHR '';''" using assms(1) by auto
  have 1: "CHR ''/'' \<notin> set (Bp @ CHR '';'' # prm)" using False assms(2) by simp
  have 2: "CHR '';'' \<in> set (Bp @ CHR '';'' # prm)" by simp
  have tw: "takeWhile (\<lambda>c. c \<noteq> CHR '';'') (Bp @ CHR '';'' # prm) = Bp"
    using tw_app[of Bp "\<lambda>c. c \<noteq> CHR '';''" "CHR '';''" prm] nb by blast
  have dw: "dropWhile (\<lambda>c. c \<noteq> CHR '';'') (Bp @ CHR '';'' # prm) = CHR '';'' # prm"
    using dw_app[of Bp "\<lambda>c. c \<noteq> CHR '';''" "CHR '';''" prm] nb by blast
  show ?thesis unfolding splitparams_noslash[OF 1 2] tw dw by simp
qed

section \<open>Sanitizing twice\<close>

lemma urlparse_obtain:
  assumes "urlparse u = Inr parts"
  obtains p0 where "urlsplit u = Inr (scheme parts, netloc parts, p0, query parts, fragment parts)"
    "set (path parts) \<subseteq> set p0" "set (params parts) \<subseteq> set p0" "CHR ''/'' \<notin> set (params parts)"
    "params parts \<noteq> [] \<Longrightarrow> scheme parts \<in> set uses_params"
proof -
  obtain s n p0 q f where sp: "urlsplit u = Inr (s, n, p0, q, f)"
    using assms by (cases "urlsplit u") (auto simp: urlparse_def)
  show thesis
  proof (cases "s \<in> set uses_params \<and> CHR '';'' \<in> set p0")
    case True
    then have c: "CHR '';'' \<in> set p0" by simp
    have "parts = \<lparr>scheme = s, netloc = n, path = fst (splitparams p0), params = snd (splitparams p0),
                    query = q, fragment = f\<rparr>"
      using assms True by (simp add: urlparse_def sp split_beta)
    then show ?thesis using that[of p0] sp splitparams_subset[OF c] True by simp
  next
    case False
    then have "parts = \<lparr>scheme = s, netloc = n, path = p0, params = [], query = q, fragment = f\<rparr>"
      using assms by (auto simp: urlparse_def sp)
    then show ?thesis using that[of p0] sp by simp
  qed
qed

lemma urlparse_rebuilt:
  assumes "urlsplit v = Inr (s, n, Bp @ (if prm = [] then [] else '';'' @ prm), q, f)"
    and "CHR '';'' \<notin> set Bp" and "CHR ''/'' \<notin> set prm" and "prm \<noteq> [] \<Longrightarrow> s \<in> set uses_params"
  shows "urlparse v = Inr \<lparr>scheme = s, netloc = n, path = Bp, params = prm, query = q, fragment = f\<rparr>"
proof (cases "prm = []")
  case True
  then show ?thesis using assms(1,2) by (simp add: urlparse_def)
next
  case False
  then have "splitparams (Bp @ CHR '';'' # prm) = (Bp, prm)"
    using splitparams_rebuilt[OF assms(2,3)] by simp
  then show ?thesis using assms(1,4) False by (simp add: urlparse_def)
qed


lemma sanitize_query_props:
  "CHR ''#'' \<notin> set (sanitize_query p)" "CHR ''?'' \<notin> set (sanitize_query p)"
  "\<forall>c\<in>set (sanitize_query p). c \<notin> set UNSAFE_URL_BYTES_TO_REMOVE"
  by (simp_all add: sanitize_query_def UNSAFE_URL_BYTES_TO_REMOVE_def)

lemma sanitize_url_reparse:
  assumes "u \<noteq> []" and "urlparse u = Inr parts" and "scheme parts \<noteq> [] \<or> netloc parts \<noteq> []"
  shows "\<exists>v. sanitize_url u = Inr v \<and> v \<noteq> []
           \<and> urlsplit v = Inr (scheme parts, netloc parts,
                 (if netloc parts \<noteq> [] \<or> (scheme parts \<noteq> [] \<and> scheme parts \<in> set uses_netloc)
                  then CHR ''/'' # sanitize_path (path parts)
                  else if sanitize_path (path parts) = [] then ''/'' else sanitize_path (path parts))
                 @ (if params parts = [] then [] else '';'' @ params parts),
                 sanitize_query (sanitize_path (path parts)), fragment parts)"
proof -
  define s where "s = scheme parts"
  define n where "n = netloc parts"
  define prm where "prm = params parts"
  define f where "f = fragment parts"
  define sp where "sp = sanitize_path (path parts)"
  define qry where "qry = sanitize_query sp"
  define NB where "NB = (n \<noteq> [] \<or> (s \<noteq> [] \<and> s \<in> set uses_netloc))"
  define Bp where "Bp = (if NB then CHR ''/'' # sp else if sp = [] then ''/'' else sp)"
  define B where "B = Bp @ (if prm = [] then [] else '';'' @ prm)"
  define A where "A = (if NB then ''//'' @ n @ B else B)"
  define v where "v = (if s = [] then [] else s @ '':'') @ A @ ''?'' @ qry @ (if f = [] then [] else ''#'' @ f)"
  obtain p0 where p0: "urlsplit u = Inr (s, n, p0, query parts, f)"
    "set (path parts) \<subseteq> set p0" "set prm \<subseteq> set p0"
    using urlparse_obtain[OF assms(2)] unfolding s_def n_def prm_def f_def by blast
  note P = urlsplit_props[OF p0(1)]
  have v: "sanitize_url u = Inr v"
    unfolding sanitize_url_form[OF assms(1,2)]
    by (simp add: v_def A_def B_def Bp_def NB_def s_def n_def prm_def f_def sp_def qry_def)
  have vne: "v \<noteq> []" by (simp add: v_def)
  have spsub: "set sp \<subseteq> set p0" using sanitize_path_subset[of "path parts"] p0(2) by (auto simp: sp_def)
  have Bsub: "set B \<subseteq> set p0 \<union> {CHR ''/'', CHR '';''}"
    using spsub p0(3) by (auto simp: B_def Bp_def split: if_splits)
  have B1: "CHR ''?'' \<notin> set B" using Bsub P(4) by auto
  have B2: "CHR ''#'' \<notin> set B" using Bsub P(5) by auto
  have cS: "CHR ''/'' \<notin> set UNSAFE_URL_BYTES_TO_REMOVE" "CHR '';'' \<notin> set UNSAFE_URL_BYTES_TO_REMOVE"
    by (simp_all add: UNSAFE_URL_BYTES_TO_REMOVE_def)
  have p0S: "\<forall>c\<in>set p0. c \<notin> set UNSAFE_URL_BYTES_TO_REMOVE" using P(7) by blast
  have BS: "\<forall>c\<in>set B. c \<notin> set UNSAFE_URL_BYTES_TO_REMOVE" using Bsub p0S cS by blast
  have nS: "\<forall>c\<in>set n. c \<notin> set UNSAFE_URL_BYTES_TO_REMOVE" using P(7) by blast
  have fS: "\<forall>c\<in>set f. c \<notin> set UNSAFE_URL_BYTES_TO_REMOVE" using P(7) by blast
  have safe: "\<And>c. c \<in> set n \<union> set B \<union> set qry \<union> set f \<Longrightarrow> c \<notin> set UNSAFE_URL_BYTES_TO_REMOVE"
    using nS BS fS sanitize_query_props(3)[of sp] unfolding qry_def by blast
  have hdsp: "sp \<noteq> [] \<Longrightarrow> hd sp \<noteq> CHR ''/''" using sanitize_path_ends[of "path parts"] by (simp add: sp_def)
  have shape: "(A = ''//'' @ n @ B \<and> (B = [] \<or> hd B = CHR ''/''))
                \<or> (n = [] \<and> s \<noteq> [] \<and> A = B \<and> take 2 B \<noteq> ''//'')"
  proof (cases NB)
    case True
    then show ?thesis by (simp add: A_def B_def Bp_def)
  next
    case False
    then have n: "n = []" by (simp add: NB_def)
    then have s: "s \<noteq> []" using assms(3) by (simp add: s_def n_def)
    have "take 2 B \<noteq> ''//''"
    proof (cases sp)
      case Nil
      then show ?thesis using False by (simp add: B_def Bp_def)
    next
      case (Cons c sp')
      then have "c \<noteq> CHR ''/''" using hdsp by simp
      then show ?thesis using False Cons by (simp add: B_def Bp_def)
    qed
    then show ?thesis using False n s by (simp add: A_def)
  qed
  have "urlsplit v = Inr (s, n, B, qry, f)"
    unfolding v_def
    using P(1) P(2) P(3) B1 B2 sanitize_query_props(1)[of sp, folded qry_def] safe shape
    by (rule urlsplit_rebuilt)
  then show ?thesis
    using v vne
    by (simp add: B_def Bp_def NB_def s_def n_def prm_def f_def sp_def qry_def)
qed


lemma sanitize_url_Nil: "sanitize_url [] = Inr []"
  by (simp add: sanitize_url_def)

text \<open>
  Claim C1, as amended.  Let \<open>sanitize_url(u)\<close> return a non-empty \<open>v\<close>, let the parsed
  \<open>u\<close> have a scheme or a netloc, and let its parsed path hold no \<open>;\<close>.  Then
  \<open>sanitize_url(v)\<close> returns \<open>v\<close>.
\<close>

theorem sanitize_url_idempotent:
  assumes "sanitize_url u = Inr v" and "v \<noteq> []" and "urlparse u = Inr parts"
    and "scheme parts \<noteq> [] \<or> netloc parts \<noteq> []" and "CHR '';'' \<notin> set (path parts)"
  shows "sanitize_url v = Inr v"
proof -
  define sp where "sp = sanitize_path (path parts)"
  define Bp where "Bp = (if netloc parts \<noteq> [] \<or> (scheme parts \<noteq> [] \<and> scheme parts \<in> set uses_netloc)
                  then CHR ''/'' # sp else if sp = [] then ''/'' else sp)"
  have une: "u \<noteq> []" using assms(1,2) by (auto simp: sanitize_url_Nil)
  have split: "urlsplit v = Inr (scheme parts, netloc parts,
                 Bp @ (if params parts = [] then [] else '';'' @ params parts),
                 sanitize_query sp, fragment parts)"
    using sanitize_url_reparse[OF une assms(3,4)] assms(1) by (auto simp: Bp_def sp_def)
  have pA: "CHR ''/'' \<notin> set (params parts)"
    using urlparse_obtain[OF assms(3)] by blast
  have pB: "params parts \<noteq> [] \<Longrightarrow> scheme parts \<in> set uses_params"
    using urlparse_obtain[OF assms(3)] by blast
  have "set sp \<subseteq> set (path parts)" unfolding sp_def by (rule sanitize_path_subset)
  then have semi: "CHR '';'' \<notin> set Bp" using assms(5) by (auto simp: Bp_def)
  have parse: "urlparse v = Inr \<lparr>scheme = scheme parts, netloc = netloc parts, path = Bp,
                   params = params parts, query = sanitize_query sp, fragment = fragment parts\<rparr>"
    using split semi pA pB by (rule urlparse_rebuilt)
  have again: "sanitize_path Bp = sp"
    by (simp add: Bp_def sp_def sanitize_path_again sanitize_path_root)
  have "sanitize_url v = sanitize_url u"
    unfolding sanitize_url_form[OF assms(2) parse] sanitize_url_form[OF une assms(3)]
    by (simp add: again sp_def)
  then show ?thesis using assms(1) by simp
qed

theorem sanitize_url_idempotent_witness:
  "sanitize_url ''https://example.org/shaarli/feed/rss?do=atom'' = Inr ''https://example.org/shaarli?do=rss''
   \<and> ''https://example.org/shaarli?do=rss'' \<noteq> []
   \<and> urlparse ''https://example.org/shaarli/feed/rss?do=atom''
       = Inr \<lparr>scheme = ''https'', netloc = ''example.org'', path = ''/shaarli/feed/rss'',
              params = [], query = ''do=atom'', fragment = []\<rparr>
   \<and> sanitize_url ''https://example.org/shaarli?do=rss'' = Inr ''https://example.org/shaarli?do=rss''"
proof -
  have 1: "sanitize_url ''https://example.org/shaarli/feed/rss?do=atom'' = Inr ''https://example.org/shaarli?do=rss''"
    by code_simp
  have 2: "''https://example.org/shaarli?do=rss'' \<noteq> []" by simp
  have 3: "urlparse ''https://example.org/shaarli/feed/rss?do=atom''
       = Inr \<lparr>scheme = ''https'', netloc = ''example.org'', path = ''/shaarli/feed/rss'',
              params = [], query = ''do=atom'', fragment = []\<rparr>" by code_simp
  have 4: "scheme \<lparr>scheme = ''https'', netloc = ''example.org'', path = ''/shaarli/feed/rss'',
              params = [], query = ''do=atom'', fragment = []\<rparr> \<noteq> []
         \<or> netloc \<lparr>scheme = ''https'', netloc = ''example.org'', path = ''/shaarli/feed/rss'',
              params = [], query = ''do=atom'', fragment = []\<rparr> \<noteq> []" by simp
  have 5: "CHR '';'' \<notin> set (path \<lparr>scheme = ''https'', netloc = ''example.org'', path = ''/shaarli/feed/rss'',
              params = [], query = ''do=atom'', fragment = []\<rparr>)" by simp
  show ?thesis using sanitize_url_idempotent[OF 1 2 3 4 5] 1 2 3 by blast
qed

text \<open>
  Claim C1 as stated fails.  Without scheme and netloc, a path left over by the removal
  can start like a scheme: \<open>feed/http:x\<close> gives \<open>http:x?do=rss\<close>, which gives
  \<open>http:///x?do=rss\<close>.  With a \<open>;\<close> in the path, the second call splits params off
  where the first did not: \<open>http://h/rss;x/feed\<close> gives \<open>http://h/rss;x?do=rss\<close>, which
  gives \<open>http://h/;x?do=rss\<close>.
\<close>

theorem sanitize_url_not_idempotent:
  "sanitize_url ''feed/http:x'' = Inr ''http:x?do=rss''
   \<and> sanitize_url ''http:x?do=rss'' = Inr ''http:///x?do=rss''
   \<and> sanitize_url ''http://h/rss;x/feed'' = Inr ''http://h/rss;x?do=rss''
   \<and> sanitize_url ''http://h/rss;x?do=rss'' = Inr ''http://h/;x?do=rss''"
  by code_simp

section \<open>The shape of the result\<close>

lemma urlparse_of_urlsplit:
  assumes "urlsplit v = Inr (s, n, P, q, f)"
  shows "\<exists>parts'. urlparse v = Inr parts' \<and> scheme parts' = s \<and> netloc parts' = n
           \<and> query parts' = q \<and> fragment parts' = f"
  using assms by (simp add: urlparse_def split_beta)

lemma sanitize_query_cases: "sanitize_query p = ''do=rss'' \<or> sanitize_query p = ''mode=links&do=rss''"
  by (simp add: sanitize_query_def)

text \<open>
  Claim C6, as amended.  \<open>sanitize_url("")\<close> is \<open>""\<close>, and \<open>""\<close> is returned for no other
  input.  A non-empty input that \<open>urlparse\<close> accepts gives a non-empty text.  When the
  parsed input has a scheme or a netloc, that text parses back to the same scheme, netloc
  and fragment and to one of the two fixed queries; with a scheme it is an absolute URL.
\<close>

theorem sanitize_url_output_shape:
  "sanitize_url [] = Inr []
   \<and> (sanitize_url u = Inr [] \<longrightarrow> u = [])
   \<and> (u \<noteq> [] \<and> urlparse u = Inr parts \<longrightarrow>
        (\<exists>v. sanitize_url u = Inr v \<and> v \<noteq> []
           \<and> (scheme parts \<noteq> [] \<or> netloc parts \<noteq> [] \<longrightarrow>
                (\<exists>parts'. urlparse v = Inr parts'
                    \<and> scheme parts' = scheme parts \<and> netloc parts' = netloc parts
                    \<and> fragment parts' = fragment parts
                    \<and> (query parts' = ''do=rss'' \<or> query parts' = ''mode=links&do=rss'')))))"
proof -
  have 1: "sanitize_url [] = Inr []" by (rule sanitize_url_Nil)
  have 3: "\<exists>v. sanitize_url u = Inr v \<and> v \<noteq> []
           \<and> (scheme parts \<noteq> [] \<or> netloc parts \<noteq> [] \<longrightarrow>
                (\<exists>parts'. urlparse v = Inr parts'
                    \<and> scheme parts' = scheme parts \<and> netloc parts' = netloc parts
                    \<and> fragment parts' = fragment parts
                    \<and> (query parts' = ''do=rss'' \<or> query parts' = ''mode=links&do=rss'')))"
    if a: "u \<noteq> []" "urlparse u = Inr parts"
  proof (cases "scheme parts \<noteq> [] \<or> netloc parts \<noteq> []")
    case True
    obtain v P where v: "sanitize_url u = Inr v" "v \<noteq> []"
      "urlsplit v = Inr (scheme parts, netloc parts, P, sanitize_query (sanitize_path (path parts)), fragment parts)"
      using sanitize_url_reparse[OF a True] by blast
    show ?thesis
      using v(1,2) urlparse_of_urlsplit[OF v(3)] sanitize_query_cases[of "sanitize_path (path parts)"]
      by auto
  next
    case False
    have "sanitize_url u = Inr ((if sanitize_path (path parts) = [] then ''/'' else sanitize_path (path parts))
          @ (if params parts = [] then [] else '';'' @ params parts)
          @ ''?'' @ sanitize_query (sanitize_path (path parts))
          @ (if fragment parts = [] then [] else ''#'' @ fragment parts))"
      using sanitize_url_form[OF a] False by simp
    then show ?thesis using False by auto
  qed
  have 2: "sanitize_url u = Inr [] \<longrightarrow> u = []"
  proof (cases "u = []")
    case True then show ?thesis by simp
  next
    case False
    show ?thesis
    proof (cases "urlparse u")
      case (Inl e)
      then show ?thesis using False by (simp add: sanitize_url_def)
    next
      case (Inr parts')
      have "\<exists>v. sanitize_url u = Inr v \<and> v \<noteq> []"
      proof (cases "scheme parts' \<noteq> [] \<or> netloc parts' \<noteq> []")
        case True
        then show ?thesis using sanitize_url_reparse[OF False Inr True] by blast
      next
        case F: False
        have "sanitize_url u = Inr ((if sanitize_path (path parts') = [] then ''/'' else sanitize_path (path parts'))
          @ (if params parts' = [] then [] else '';'' @ params parts')
          @ ''?'' @ sanitize_query (sanitize_path (path parts'))
          @ (if fragment parts' = [] then [] else ''#'' @ fragment parts'))"
          using sanitize_url_form[OF False Inr] F by simp
        then show ?thesis by auto
      qed
      then show ?thesis by auto
    qed
  qed
  show ?thesis using 1 2 3 by blast
qed

theorem sanitize_url_output_shape_witness:
  "''HTTP://Example.org/rss.php?x#top'' \<noteq> []
   \<and> urlparse ''HTTP://Example.org/rss.php?x#top''
       = Inr \<lparr>scheme = ''http'', netloc = ''Example.org'', path = ''/rss.php'', params = [],
              query = ''x'', fragment = ''top''\<rparr>
   \<and> sanitize_url ''HTTP://Example.org/rss.php?x#top'' = Inr ''http://Example.org/rss.php?mode=links&do=rss#top''
   \<and> (\<exists>parts'. urlparse ''http://Example.org/rss.php?mode=links&do=rss#top'' = Inr parts'
          \<and> scheme parts' = ''http'' \<and> netloc parts' = ''Example.org'' \<and> fragment parts' = ''top''
          \<and> (query parts' = ''do=rss'' \<or> query parts' = ''mode=links&do=rss''))"
proof -
  define p0 where "p0 = \<lparr>scheme = ''http'', netloc = ''Example.org'', path = ''/rss.php'', params = [],
              query = ''x'', fragment = ''top''\<rparr>"
  have 2: "''HTTP://Example.org/rss.php?x#top'' \<noteq> []" by simp
  have 3: "urlparse ''HTTP://Example.org/rss.php?x#top'' = Inr p0" unfolding p0_def by code_simp
  have 4: "sanitize_url ''HTTP://Example.org/rss.php?x#top'' = Inr ''http://Example.org/rss.php?mode=links&do=rss#top''"
    by code_simp
  have sel: "scheme p0 = ''http''" "netloc p0 = ''Example.org''" "fragment p0 = ''top''"
    by (simp_all add: p0_def)
  have sc: "scheme p0 \<noteq> [] \<or> netloc p0 \<noteq> []" by (simp add: sel)
  obtain v where v: "sanitize_url ''HTTP://Example.org/rss.php?x#top'' = Inr v"
    "\<exists>parts'. urlparse v = Inr parts'
         \<and> scheme parts' = scheme p0 \<and> netloc parts' = netloc p0 \<and> fragment parts' = fragment p0
         \<and> (query parts' = ''do=rss'' \<or> query parts' = ''mode=links&do=rss'')"
    using sanitize_url_output_shape[of "''HTTP://Example.org/rss.php?x#top''" p0] 2 3 sc by blast
  have "v = ''http://Example.org/rss.php?mode=links&do=rss#top''" using v(1) 4 by simp
  then have 5: "\<exists>parts'. urlparse ''http://Example.org/rss.php?mode=links&do=rss#top'' = Inr parts'
          \<and> scheme parts' = ''http'' \<and> netloc parts' = ''Example.org'' \<and> fragment parts' = ''top''
          \<and> (query parts' = ''do=rss'' \<or> query parts' = ''mode=links&do=rss'')"
    using v(2) by (simp only: sel)
  show ?thesis using 2 3 4 5 unfolding p0_def by blast
qed

text \<open>
  Claim C6 as stated fails.  The input \<open>a\<close> gives \<open>a?do=rss\<close>, which has neither scheme
  nor netloc and so is not an absolute URL; and the non-empty input \<open>//[\<close> gives no text
  at all, since \<open>urlparse\<close> raises \<open>ValueError\<close>.
\<close>

theorem sanitize_url_output_not_absolute:
  "sanitize_url ''a'' = Inr ''a?do=rss''
   \<and> urlparse ''a?do=rss'' = Inr \<lparr>scheme = [], netloc = [], path = ''a'', params = [],
                                   query = ''do=rss'', fragment = []\<rparr>
   \<and> sanitize_url ''//['' = Inl ValueError"
  by code_simp

section \<open>The query of the result\<close>

lemma split_double:
  "take 2 (drop k s) = [c, c] \<Longrightarrow> [] \<in> set (tl (split_str c s))"
proof (induction s arbitrary: k)
  case Nil then show ?case by simp
next
  case (Cons x s)
  show ?case
  proof (cases k)
    case 0
    then obtain rest where "x = c" "s = c # rest" using Cons.prems by (cases s) auto
    then show ?thesis by simp
  next
    case (Suc k')
    then have "take 2 (drop k' s) = [c, c]" using Cons.prems by simp
    then have ih: "[] \<in> set (tl (split_str c s))" by (rule Cons.IH)
    then have "[] \<in> set (split_str c s)" by (cases "split_str c s") auto
    then show ?thesis using ih by (cases "split_str c s") auto
  qed
qed

lemma take2_drop_append:
  "take 2 (drop k (a @ b)) = [c, c] \<Longrightarrow> c \<notin> set b \<Longrightarrow> take 2 (drop k a) = [c, c]"
proof -
  assume a: "take 2 (drop k (a @ b)) = [c, c]" and b: "c \<notin> set b"
  have e: "drop k (a @ b) = drop k a @ drop (k - length a) b" by simp
  have nb: "c \<notin> set (drop (k - length a) b)" using b by (auto dest: in_set_dropD)
  show ?thesis
  proof (cases "drop k a")
    case Nil
    then have "take 2 (drop (k - length a) b) = [c, c]" using a e by simp
    then have "c \<in> set (take 2 (drop (k - length a) b))" by simp
    then show ?thesis using nb by (auto dest: in_set_takeD)
  next
    case (Cons x xs)
    show ?thesis
    proof (cases xs)
      case Nil
      then have "x # take 1 (drop (k - length a) b) = [c, c]" using a e Cons by simp
      then have "c \<in> set (take 1 (drop (k - length a) b))" by (cases "drop (k - length a) b") auto
      then show ?thesis using nb by (auto dest: in_set_takeD)
    next
      case (Cons y ys)
      then show ?thesis using a e \<open>drop k a = x # xs\<close> by simp
    qed
  qed
qed

lemma sanitize_path_no_double_slash: "take 2 (drop k (sanitize_path p)) \<noteq> ''//''"
proof
  assume a: "take 2 (drop k (sanitize_path p)) = ''//''"
  define kept where "kept = filter (\<lambda>x. x \<notin> set UNWANTED_URL_PATH_PARTS)
                  (filter (\<lambda>x. x \<noteq> [] \<and> x \<noteq> ''.'') (split_str CHR ''/'' p))"
  have spl: "split_str CHR ''/'' (sanitize_path p) = (if kept = [] then [[]] else kept)"
    by (simp only: split_sanitize_path kept_def Let_def)
  have "[] \<notin> set kept" by (simp add: kept_def)
  then have "[] \<notin> set (tl (split_str CHR ''/'' (sanitize_path p)))"
    unfolding spl by (cases kept) auto
  then show False using split_double[OF a] by simp
qed


lemma dropWhile_is_drop: "\<exists>k. dropWhile P xs = drop k xs"
  by (metis dropWhile_eq_drop)

lemma urlsplit_relative:
  assumes X: "CHR ''?'' \<notin> set X" "CHR ''#'' \<notin> set X"
    and nds: "\<And>k. take 2 (drop k X) \<noteq> ''//''"
    and Q: "CHR ''#'' \<notin> set qry"
    and safe: "\<forall>c\<in>set X \<union> set qry \<union> set f. c \<notin> set UNSAFE_URL_BYTES_TO_REMOVE"
  shows "\<exists>s' P'. urlsplit (X @ ''?'' @ qry @ (if f = [] then [] else ''#'' @ f)) = Inr (s', [], P', qry, f)"
proof -
  define F where "F = (if f = [] then [] else ''#'' @ f)"
  define T where "T = qry @ F"
  define v where "v = X @ CHR ''?'' # T"
  obtain U hs s' r1 n' r2 r3 f' p' q' where
    U: "U = filter (\<lambda>c. c \<notin> set UNSAFE_URL_BYTES_TO_REMOVE) (dropWhile WHATWG_C0_CONTROL_OR_SPACE v)"
    and hs: "hs = (CHR '':'' \<in> set U \<and> takeWhile (\<lambda>c. c \<noteq> CHR '':'') U \<noteq> [] \<and> is_ascii_alpha (hd U)
           \<and> list_all (\<lambda>c. c \<in> set scheme_chars) (takeWhile (\<lambda>c. c \<noteq> CHR '':'') U))"
    and s': "s' = (if hs then lower (takeWhile (\<lambda>c. c \<noteq> CHR '':'') U) else [])"
    and r1: "r1 = (if hs then drop 1 (dropWhile (\<lambda>c. c \<noteq> CHR '':'') U) else U)"
    and n': "n' = (if take 2 r1 = ''//''
          then takeWhile (\<lambda>c. c \<noteq> CHR ''/'' \<and> c \<noteq> CHR ''?'' \<and> c \<noteq> CHR ''#'') (drop 2 r1) else [])"
    and r2: "r2 = (if take 2 r1 = ''//''
           then dropWhile (\<lambda>c. c \<noteq> CHR ''/'' \<and> c \<noteq> CHR ''?'' \<and> c \<noteq> CHR ''#'') (drop 2 r1) else r1)"
    and r3: "r3 = takeWhile (\<lambda>c. c \<noteq> CHR ''#'') r2"
    and f': "f' = drop 1 (dropWhile (\<lambda>c. c \<noteq> CHR ''#'') r2)"
    and p': "p' = takeWhile (\<lambda>c. c \<noteq> CHR ''?'') r3"
    and q': "q' = drop 1 (dropWhile (\<lambda>c. c \<noteq> CHR ''?'') r3)"
    and res: "urlsplit v =
       (if (CHR ''['' \<in> set n' \<and> CHR '']'' \<notin> set n') \<or> (CHR '']'' \<in> set n' \<and> CHR ''['' \<notin> set n')
            \<or> (CHR ''['' \<in> set n' \<and> CHR '']'' \<in> set n' \<and> \<not> check_bracketed_netloc n')
        then Inl ValueError else Inr (s', n', p', q', f'))"
    by (rule urlsplit_obtain)
  have cS: "CHR ''?'' \<notin> set UNSAFE_URL_BYTES_TO_REMOVE" "CHR ''#'' \<notin> set UNSAFE_URL_BYTES_TO_REMOVE"
    by (simp_all add: UNSAFE_URL_BYTES_TO_REMOVE_def)
  have v_safe: "\<forall>c\<in>set v. c \<notin> set UNSAFE_URL_BYTES_TO_REMOVE"
    using safe cS by (auto simp: v_def T_def F_def)
  have qm: "\<not> WHATWG_C0_CONTROL_OR_SPACE CHR ''?''" by (simp add: WHATWG_C0_CONTROL_OR_SPACE_def)
  have dv: "dropWhile WHATWG_C0_CONTROL_OR_SPACE v = dropWhile WHATWG_C0_CONTROL_OR_SPACE X @ CHR ''?'' # T"
    unfolding v_def using qm by (rule dropWhile_append3)
  obtain k1 where k1: "dropWhile WHATWG_C0_CONTROL_OR_SPACE X = drop k1 X"
    using dropWhile_is_drop by blast
  have "\<forall>c\<in>set (dropWhile WHATWG_C0_CONTROL_OR_SPACE v). c \<notin> set UNSAFE_URL_BYTES_TO_REMOVE"
    using v_safe by (auto dest: set_dropWhileD)
  then have Uv: "U = drop k1 X @ CHR ''?'' # T" unfolding U by (simp add: filter_id_conv dv k1)
  have "\<exists>k. r1 = drop k X @ CHR ''?'' # T"
  proof (cases hs)
    case False
    then show ?thesis using Uv r1 by auto
  next
    case True
    define X1 where "X1 = drop k1 X"
    have U1: "U = X1 @ CHR ''?'' # T" by (simp add: Uv X1_def)
    have sc: "list_all (\<lambda>c. c \<in> set scheme_chars) (takeWhile (\<lambda>c. c \<noteq> CHR '':'') U)"
      using True by (simp add: hs)
    have colon: "CHR '':'' \<in> set X1"
    proof (rule ccontr)
      assume n: "CHR '':'' \<notin> set X1"
      then have "takeWhile (\<lambda>c. c \<noteq> CHR '':'') U = X1 @ takeWhile (\<lambda>c. c \<noteq> CHR '':'') (CHR ''?'' # T)"
        unfolding U1 by (intro takeWhile_append2) auto
      then have "CHR ''?'' \<in> set (takeWhile (\<lambda>c. c \<noteq> CHR '':'') U)" by simp
      then have "CHR ''?'' \<in> set scheme_chars" using sc by (auto simp: list_all_iff)
      then show False using scheme_char_props(6) by blast
    qed
    then have dU: "dropWhile (\<lambda>c. c \<noteq> CHR '':'') U = dropWhile (\<lambda>c. c \<noteq> CHR '':'') X1 @ CHR ''?'' # T"
      unfolding U1 by (intro dropWhile_append1) auto
    have "dropWhile (\<lambda>c. c \<noteq> CHR '':'') X1 \<noteq> []" using colon by auto
    then obtain d ds where d: "dropWhile (\<lambda>c. c \<noteq> CHR '':'') X1 = d # ds"
      by (cases "dropWhile (\<lambda>c. c \<noteq> CHR '':'') X1") auto
    obtain k2 where k2: "dropWhile (\<lambda>c. c \<noteq> CHR '':'') X1 = drop k2 X1"
      using dropWhile_is_drop by blast
    have "ds = drop 1 (drop k2 X1)" using d k2 by (metis drop0 drop_Suc_Cons One_nat_def)
    then have ds: "ds = drop (1 + k2 + k1) X" by (simp add: X1_def add.commute)
    have "r1 = ds @ CHR ''?'' # T" using True by (simp add: r1 dU d)
    then show ?thesis using ds by blast
  qed
  then obtain k where rk: "r1 = drop k X @ CHR ''?'' # T" by blast
  define Y where "Y = drop k X"
  have Y: "CHR ''?'' \<notin> set Y" "CHR ''#'' \<notin> set Y"
    using X by (auto simp: Y_def dest: in_set_dropD)
  have "take 2 r1 \<noteq> ''//''"
    unfolding rk using take2_append_query[of "drop k X" T] nds[of k] by blast
  then have nr: "n' = []" "r2 = Y @ CHR ''?'' # T" by (simp_all add: n' r2 rk Y_def)
  have pre_hash: "\<forall>c\<in>set (Y @ CHR ''?'' # qry). c \<noteq> CHR ''#''" using Y Q by auto
  have frag: "r3 = Y @ CHR ''?'' # qry \<and> f' = f"
  proof (cases "f = []")
    case True
    then have t: "r2 = Y @ CHR ''?'' # qry" by (simp add: nr T_def F_def)
    have tw1: "takeWhile (\<lambda>c. c \<noteq> CHR ''#'') (Y @ CHR ''?'' # qry) = Y @ CHR ''?'' # qry"
      using tw_all[of "Y @ CHR ''?'' # qry" "\<lambda>c. c \<noteq> CHR ''#''"] pre_hash by blast
    have dw1: "dropWhile (\<lambda>c. c \<noteq> CHR ''#'') (Y @ CHR ''?'' # qry) = []"
      using dw_all[of "Y @ CHR ''?'' # qry" "\<lambda>c. c \<noteq> CHR ''#''"] pre_hash by blast
    show ?thesis unfolding r3 f' t tw1 dw1 using True by simp
  next
    case False
    then have t: "r2 = (Y @ CHR ''?'' # qry) @ CHR ''#'' # f" by (simp add: nr T_def F_def)
    have tw1: "takeWhile (\<lambda>c. c \<noteq> CHR ''#'') ((Y @ CHR ''?'' # qry) @ CHR ''#'' # f) = Y @ CHR ''?'' # qry"
      using tw_app[of "Y @ CHR ''?'' # qry" "\<lambda>c. c \<noteq> CHR ''#''" "CHR ''#''" f] pre_hash by blast
    have dw1: "dropWhile (\<lambda>c. c \<noteq> CHR ''#'') ((Y @ CHR ''?'' # qry) @ CHR ''#'' # f) = CHR ''#'' # f"
      using dw_app[of "Y @ CHR ''?'' # qry" "\<lambda>c. c \<noteq> CHR ''#''" "CHR ''#''" f] pre_hash by blast
    show ?thesis unfolding r3 f' t tw1 dw1 by simp
  qed
  have Yq: "\<forall>c\<in>set Y. c \<noteq> CHR ''?''" using Y by auto
  have tw2: "takeWhile (\<lambda>c. c \<noteq> CHR ''?'') (Y @ CHR ''?'' # qry) = Y"
    using tw_app[of Y "\<lambda>c. c \<noteq> CHR ''?''" "CHR ''?''" qry] Yq by blast
  have dw2: "dropWhile (\<lambda>c. c \<noteq> CHR ''?'') (Y @ CHR ''?'' # qry) = CHR ''?'' # qry"
    using dw_app[of Y "\<lambda>c. c \<noteq> CHR ''?''" "CHR ''?''" qry] Yq by blast
  have pq: "p' = Y \<and> q' = qry" unfolding p' q' conjunct1[OF frag] tw2 dw2 by simp
  have "urlsplit v = Inr (s', [], Y, qry, f)" by (simp add: res nr pq frag)
  then show ?thesis by (auto simp: v_def T_def F_def)
qed


lemma sanitize_url_reparse_relative:
  assumes "u \<noteq> []" and "urlparse u = Inr parts" and "scheme parts = []" and "netloc parts = []"
  shows "\<exists>v s' P'. sanitize_url u = Inr v
           \<and> urlsplit v = Inr (s', [], P', sanitize_query (sanitize_path (path parts)), fragment parts)"
proof -
  define prm where "prm = params parts"
  define f where "f = fragment parts"
  define sp where "sp = sanitize_path (path parts)"
  define qry where "qry = sanitize_query sp"
  define Bp where "Bp = (if sp = [] then ''/'' else sp)"
  define pp where "pp = (if prm = [] then [] else '';'' @ prm)"
  define X where "X = Bp @ pp"
  obtain p0 where p0: "urlsplit u = Inr ([], [], p0, query parts, f)"
    "set (path parts) \<subseteq> set p0" "set prm \<subseteq> set p0" "CHR ''/'' \<notin> set prm"
    using urlparse_obtain[OF assms(2)] unfolding assms(3,4) prm_def f_def by blast
  note P = urlsplit_props[OF p0(1)]
  have v: "sanitize_url u = Inr (X @ ''?'' @ qry @ (if f = [] then [] else ''#'' @ f))"
    unfolding sanitize_url_form[OF assms(1,2)]
    by (simp add: assms(3,4) X_def Bp_def pp_def prm_def f_def sp_def qry_def)
  have spsub: "set sp \<subseteq> set p0" using sanitize_path_subset[of "path parts"] p0(2) by (auto simp: sp_def)
  have Xsub: "set X \<subseteq> set p0 \<union> {CHR ''/'', CHR '';''}"
    using spsub p0(3) by (auto simp: X_def Bp_def pp_def split: if_splits)
  have X1: "CHR ''?'' \<notin> set X" using Xsub P(4) by auto
  have X2: "CHR ''#'' \<notin> set X" using Xsub P(5) by auto
  have cS: "CHR ''/'' \<notin> set UNSAFE_URL_BYTES_TO_REMOVE" "CHR '';'' \<notin> set UNSAFE_URL_BYTES_TO_REMOVE"
    by (simp_all add: UNSAFE_URL_BYTES_TO_REMOVE_def)
  have p0S: "\<forall>c\<in>set p0. c \<notin> set UNSAFE_URL_BYTES_TO_REMOVE" using P(7) by blast
  have XS: "\<forall>c\<in>set X. c \<notin> set UNSAFE_URL_BYTES_TO_REMOVE" using Xsub p0S cS by blast
  have fS: "\<forall>c\<in>set f. c \<notin> set UNSAFE_URL_BYTES_TO_REMOVE" using P(7) by blast
  have safe: "\<forall>c\<in>set X \<union> set qry \<union> set f. c \<notin> set UNSAFE_URL_BYTES_TO_REMOVE"
    using XS fS sanitize_query_props(3)[of sp] unfolding qry_def by blast
  have ppslash: "CHR ''/'' \<notin> set pp" using p0(4) by (simp add: pp_def)
  have nds: "take 2 (drop k X) \<noteq> ''//''" for k
  proof
    assume "take 2 (drop k X) = ''//''"
    then have b: "take 2 (drop k Bp) = ''//''"
      unfolding X_def using ppslash by (rule take2_drop_append)
    show False
    proof (cases "sp = []")
      case True
      then have "length (take 2 (drop k Bp)) \<le> 1" by (simp add: Bp_def)
      then show False using b by simp
    next
      case False
      then show False using b sanitize_path_no_double_slash[of k "path parts"] by (simp add: Bp_def sp_def)
    qed
  qed
  have "\<exists>s' P'. urlsplit (X @ ''?'' @ qry @ (if f = [] then [] else ''#'' @ f)) = Inr (s', [], P', qry, f)"
    using X1 X2 nds sanitize_query_props(1)[of sp, folded qry_def] safe by (rule urlsplit_relative)
  then show ?thesis using v by (auto simp: qry_def sp_def f_def)
qed

text \<open>
  Claim C4.  For a non-empty input that \<open>urlparse\<close> accepts, the text returned parses
  back to the query \<open>mode=links&do=rss\<close> when the sanitized path ends with \<open>rss.php\<close>
  and to \<open>do=rss\<close> otherwise.  The query of the input plays no part: every input that
  parses to the same components but for the query gives the same text.
\<close>

theorem sanitize_url_replaces_query:
  assumes "u \<noteq> []" and "urlparse u = Inr parts"
  shows "\<exists>v parts'. sanitize_url u = Inr v \<and> urlparse v = Inr parts'
           \<and> query parts' = (if endswith (sanitize_path (path parts)) ''rss.php''
                              then ''mode=links&do=rss'' else ''do=rss'')
           \<and> (\<forall>u2 q2. u2 \<noteq> [] \<and> urlparse u2 = Inr (parts\<lparr>query := q2\<rparr>) \<longrightarrow> sanitize_url u2 = Inr v)"
proof -
  have "\<exists>v s' n' P'. sanitize_url u = Inr v
           \<and> urlsplit v = Inr (s', n', P', sanitize_query (sanitize_path (path parts)), fragment parts)"
  proof (cases "scheme parts \<noteq> [] \<or> netloc parts \<noteq> []")
    case True
    then show ?thesis using sanitize_url_reparse[OF assms True] by blast
  next
    case False
    then show ?thesis using sanitize_url_reparse_relative[OF assms] by blast
  qed
  then obtain v s' n' P' where v: "sanitize_url u = Inr v"
    "urlsplit v = Inr (s', n', P', sanitize_query (sanitize_path (path parts)), fragment parts)"
    by blast
  obtain parts' where p': "urlparse v = Inr parts'"
    "query parts' = sanitize_query (sanitize_path (path parts))"
    using urlparse_of_urlsplit[OF v(2)] by blast
  have same: "sanitize_url u2 = Inr v" if "u2 \<noteq> []" "urlparse u2 = Inr (parts\<lparr>query := q2\<rparr>)" for u2 q2
  proof -
    have "sanitize_url u2 = sanitize_url u"
      unfolding sanitize_url_form[OF that] sanitize_url_form[OF assms] by simp
    then show ?thesis using v(1) by simp
  qed
  show ?thesis using v(1) p' same by (auto simp: sanitize_query_def)
qed

theorem sanitize_url_replaces_query_witness:
  "''https://example.org/blog/rss.php?kw=computer%20services&do=atom'' \<noteq> []
   \<and> urlparse ''https://example.org/blog/rss.php?kw=computer%20services&do=atom''
       = Inr \<lparr>scheme = ''https'', netloc = ''example.org'', path = ''/blog/rss.php'', params = [],
              query = ''kw=computer%20services&do=atom'', fragment = []\<rparr>
   \<and> sanitize_path ''/blog/rss.php'' = ''blog/rss.php''
   \<and> sanitize_url ''https://example.org/blog/rss.php?kw=computer%20services&do=atom''
       = Inr ''https://example.org/blog/rss.php?mode=links&do=rss''
   \<and> (\<exists>parts'. urlparse ''https://example.org/blog/rss.php?mode=links&do=rss'' = Inr parts'
          \<and> query parts' = ''mode=links&do=rss'')
   \<and> sanitize_url ''https://example.org/blog/rss.php?'' = Inr ''https://example.org/blog/rss.php?mode=links&do=rss''"
proof -
  define p0 where "p0 = \<lparr>scheme = ''https'', netloc = ''example.org'', path = ''/blog/rss.php'', params = [],
              query = ''kw=computer%20services&do=atom'', fragment = []\<rparr>"
  have 1: "''https://example.org/blog/rss.php?kw=computer%20services&do=atom'' \<noteq> []" by simp
  have 2: "urlparse ''https://example.org/blog/rss.php?kw=computer%20services&do=atom'' = Inr p0"
    unfolding p0_def by code_simp
  have 3: "sanitize_path ''/blog/rss.php'' = ''blog/rss.php''" by code_simp
  have 4: "sanitize_url ''https://example.org/blog/rss.php?kw=computer%20services&do=atom''
       = Inr ''https://example.org/blog/rss.php?mode=links&do=rss''" by code_simp
  have e: "endswith (sanitize_path (path p0)) ''rss.php''" by (simp add: p0_def 3 endswith_def)
  have 6: "''https://example.org/blog/rss.php?'' \<noteq> []" by simp
  have 7: "urlparse ''https://example.org/blog/rss.php?'' = Inr (p0\<lparr>query := []\<rparr>)"
    unfolding p0_def by code_simp
  obtain v parts' where v: "sanitize_url ''https://example.org/blog/rss.php?kw=computer%20services&do=atom'' = Inr v"
    "urlparse v = Inr parts'"
    "query parts' = (if endswith (sanitize_path (path p0)) ''rss.php'' then ''mode=links&do=rss'' else ''do=rss'')"
    "\<forall>u2 q2. u2 \<noteq> [] \<and> urlparse u2 = Inr (p0\<lparr>query := q2\<rparr>) \<longrightarrow> sanitize_url u2 = Inr v"
    using sanitize_url_replaces_query[OF 1 2] by blast
  have veq: "v = ''https://example.org/blog/rss.php?mode=links&do=rss''" using v(1) 4 by simp
  have 5: "\<exists>parts'. urlparse ''https://example.org/blog/rss.php?mode=links&do=rss'' = Inr parts'
          \<and> query parts' = ''mode=links&do=rss''"
    using v(2,3) e unfolding veq by simp
  have 8: "sanitize_url ''https://example.org/blog/rss.php?'' = Inr ''https://example.org/blog/rss.php?mode=links&do=rss''"
    using v(4) 6 7 unfolding veq by blast
  show ?thesis using 1 2 3 4 5 8 unfolding p0_def by blast
qed

section \<open>The feed sources\<close>

text \<open>The only exception of \<open>sanitize_url\<close> is the \<open>ValueError\<close> of \<open>urlsplit\<close>.\<close>

lemma urlsplit_error: "urlsplit u = Inl e \<Longrightarrow> e = ValueError"
  by (simp add: urlsplit_unfold Let_def split: if_splits)

lemma urlparse_error: "urlparse u = Inl e \<Longrightarrow> e = ValueError"
  unfolding urlparse_def
  by (auto split: sum.splits prod.splits if_splits simp: Let_def dest: urlsplit_error)

lemma sanitize_url_error: "sanitize_url u = Inl e \<Longrightarrow> e = ValueError"
  unfolding sanitize_url_def
  by (auto split: sum.splits if_splits simp: Let_def dest: urlparse_error)

text \<open>The set comprehension returns a set exactly when every item can be extracted and
  sanitized, and the set is then the one of the sanitized items; otherwise the exception
  of an item is raised.\<close>

lemma sanitize_all_Inr:
  "sanitize_all get xs = Inr S \<longleftrightarrow>
     (\<forall>x\<in>set xs. \<exists>j v. get x = Inr j \<and> sanitize_value j = Inr v)
     \<and> S = {v. \<exists>x\<in>set xs. \<exists>j. get x = Inr j \<and> sanitize_value j = Inr v}"
proof (induction xs arbitrary: S)
  case Nil
  show ?case by auto
next
  case (Cons x xs)
  show ?case
  proof (cases "get x")
    case (Inl e)
    then show ?thesis by auto
  next
    case gj: (Inr j)
    show ?thesis
    proof (cases "sanitize_value j")
      case (Inl e)
      with gj show ?thesis by auto
    next
      case sv: (Inr v)
      show ?thesis
      proof (cases "sanitize_all get xs")
        case (Inl e)
        with Cons.IH gj sv show ?thesis by auto
      next
        case (Inr T)
        with Cons.IH[of T] gj sv show ?thesis by auto
      qed
    qed
  qed
qed

lemma sanitize_all_Inl:
  "sanitize_all get xs = Inl e \<Longrightarrow>
   \<exists>x\<in>set xs. get x = Inl e \<or> (\<exists>j. get x = Inr j \<and> sanitize_value j = Inl e)"
  by (induction xs) (auto split: sum.splits)

lemma findall_xmlUrl_nonempty: "s \<in> set (findall_xmlUrl doc) \<Longrightarrow> s \<noteq> []"
proof (induction doc rule: findall_xmlUrl.induct)
  case (1 t)
  note IH = "1.IH" and prems = "1.prems"
  from prems have "s \<in> set (if t = [] then []
      else if startswith t (''xmlUrl='' @ [CHR 0x22])
              \<and> takeWhile (\<lambda>c. c \<noteq> CHR 0x22) (drop 8 t) \<noteq> []
              \<and> dropWhile (\<lambda>c. c \<noteq> CHR 0x22) (drop 8 t) \<noteq> []
      then takeWhile (\<lambda>c. c \<noteq> CHR 0x22) (drop 8 t)
             # findall_xmlUrl (drop 1 (dropWhile (\<lambda>c. c \<noteq> CHR 0x22) (drop 8 t)))
      else findall_xmlUrl (tl t))"
    by (subst (asm) findall_xmlUrl.simps) simp
  then show ?case using IH by (auto split: if_splits)
qed

lemma sanitize_value_JString: "sanitize_value (JString s) = sanitize_url s"
  by (simp add: sanitize_value_def sanitize_url_Nil)


lemma sanitize_all_strings:
  "sanitize_all (\<lambda>url. Inr (JString url)) xs =
     (if \<forall>s\<in>set xs. \<exists>v. sanitize_url s = Inr v
      then Inr {v. \<exists>s\<in>set xs. sanitize_url s = Inr v}
      else Inl ValueError)"
proof (cases "\<forall>s\<in>set xs. \<exists>v. sanitize_url s = Inr v")
  case True
  then have "sanitize_all (\<lambda>url. Inr (JString url)) xs
               = Inr {v. \<exists>s\<in>set xs. sanitize_url s = Inr v}"
    by (subst sanitize_all_Inr) (auto simp: sanitize_value_JString)
  with True show ?thesis by simp
next
  case False
  have "\<not> (\<exists>S. sanitize_all (\<lambda>url. Inr (JString url)) xs = Inr S)"
  proof
    assume "\<exists>S. sanitize_all (\<lambda>url. Inr (JString url)) xs = Inr S"
    then obtain S where "sanitize_all (\<lambda>url. Inr (JString url)) xs = Inr S" ..
    then have "\<forall>x\<in>set xs. \<exists>j v. (Inr (JString x) :: error + json) = Inr j \<and> sanitize_value j = Inr v"
      using sanitize_all_Inr[of "\<lambda>url. Inr (JString url)" xs S] by blast
    then have "\<forall>s\<in>set xs. \<exists>v. sanitize_url s = Inr v"
      by (auto simp: sanitize_value_JString)
    with False show False by simp
  qed
  then obtain e where e: "sanitize_all (\<lambda>url. Inr (JString url)) xs = Inl e"
    by (cases "sanitize_all (\<lambda>url. Inr (JString url)) xs") auto
  from sanitize_all_Inl[OF e] obtain x where "sanitize_url x = Inl e"
    by (auto simp: sanitize_value_JString)
  then have "e = ValueError" by (rule sanitize_url_error)
  with e False show ?thesis by simp
qed

text \<open>
  Claim C7, as amended.  When \<open>urlopen(url).read()\<close> ends with \<open>IncompleteRead\<close>, the
  function goes on with the bytes read so far, as for a complete read of these bytes.
  For \<open>opml\<close>: bytes that decode to \<open>doc\<close> give the set of the \<open>sanitize_url\<close> of every
  \<open>xmlUrl\<close> found in \<open>doc\<close> when \<open>sanitize_url\<close> accepts each of them, and \<open>ValueError\<close>
  otherwise; bytes that do not decode give the exception of \<open>decode\<close>.  For \<open>json\<close>:
  bytes that \<open>json.loads\<close> rejects give its exception, a value that cannot be iterated
  gives \<open>TypeError\<close>, and the items \<open>feeds\<close> of any other value give a set exactly when
  \<open>feed["url"]\<close> and \<open>sanitize_url\<close> succeed on every item; it is the set of these
  results.
\<close>

theorem get_dynamic_feeds_incomplete_read:
  assumes "urlopen_read url = IncompleteRead partial"
  shows "get_dynamic_feeds json_loads decode urlopen_read kind url
           = get_dynamic_feeds json_loads decode (\<lambda>u. Read partial) kind url
    \<and> (decode partial = Inr doc \<longrightarrow>
         get_dynamic_feeds json_loads decode urlopen_read ''opml'' url =
           (if \<forall>s\<in>set (findall_xmlUrl doc). \<exists>v. sanitize_url s = Inr v
            then Inr {v. \<exists>s\<in>set (findall_xmlUrl doc). sanitize_url s = Inr v}
            else Inl ValueError))
    \<and> (decode partial = Inl e \<longrightarrow>
         get_dynamic_feeds json_loads decode urlopen_read ''opml'' url = Inl e)
    \<and> (json_loads partial = Inl e \<longrightarrow>
         get_dynamic_feeds json_loads decode urlopen_read ''json'' url = Inl e)
    \<and> (json_loads partial = Inr j \<and> iterate j = Inl e \<longrightarrow>
         get_dynamic_feeds json_loads decode urlopen_read ''json'' url = Inl e)
    \<and> (json_loads partial = Inr j \<and> iterate j = Inr feeds \<longrightarrow>
         (get_dynamic_feeds json_loads decode urlopen_read ''json'' url = Inr S \<longleftrightarrow>
            (\<forall>f\<in>set feeds. \<exists>w v. get_url f = Inr w \<and> sanitize_value w = Inr v)
            \<and> S = {v. \<exists>f\<in>set feeds. \<exists>w. get_url f = Inr w \<and> sanitize_value w = Inr v}))"
proof -
  have g: "get_dynamic_feeds json_loads decode urlopen_read k url
             = parse_feeds json_loads decode k partial" for k
    using assms by (simp add: get_dynamic_feeds_def)
  have c1: "get_dynamic_feeds json_loads decode urlopen_read kind url
           = get_dynamic_feeds json_loads decode (\<lambda>u. Read partial) kind url"
    using assms by (simp add: get_dynamic_feeds_def)
  have c2: "decode partial = Inr doc \<longrightarrow>
         get_dynamic_feeds json_loads decode urlopen_read ''opml'' url =
           (if \<forall>s\<in>set (findall_xmlUrl doc). \<exists>v. sanitize_url s = Inr v
            then Inr {v. \<exists>s\<in>set (findall_xmlUrl doc). sanitize_url s = Inr v}
            else Inl ValueError)"
    unfolding g by (simp only: parse_feeds_def sanitize_all_strings) simp
  have c3: "decode partial = Inl e \<longrightarrow>
         get_dynamic_feeds json_loads decode urlopen_read ''opml'' url = Inl e"
    unfolding g by (simp add: parse_feeds_def)
  have c4: "json_loads partial = Inl e \<longrightarrow>
         get_dynamic_feeds json_loads decode urlopen_read ''json'' url = Inl e"
    unfolding g by (simp add: parse_feeds_def)
  have c5: "json_loads partial = Inr j \<and> iterate j = Inl e \<longrightarrow>
         get_dynamic_feeds json_loads decode urlopen_read ''json'' url = Inl e"
    unfolding g by (simp add: parse_feeds_def)
  have c6: "json_loads partial = Inr j \<and> iterate j = Inr feeds \<longrightarrow>
         (get_dynamic_feeds json_loads decode urlopen_read ''json'' url = Inr S \<longleftrightarrow>
            (\<forall>f\<in>set feeds. \<exists>w v. get_url f = Inr w \<and> sanitize_value w = Inr v)
            \<and> S = {v. \<exists>f\<in>set feeds. \<exists>w. get_url f = Inr w \<and> sanitize_value w = Inr v})"
    unfolding g using sanitize_all_Inr[of get_url feeds S] by (simp add: parse_feeds_def)
  from c1 c2 c3 c4 c5 c6 show ?thesis by blast
qed

theorem get_dynamic_feeds_incomplete_read_witness:
  "get_dynamic_feeds (\<lambda>d. Inl JSONDecodeError) Inr
       (\<lambda>u. IncompleteRead (''<outline xmlUrl='' @ [CHR 0x22] @ ''https://example.org/feed/atom'' @ [CHR 0x22]
          @ '' /><outline xmlUrl='' @ [CHR 0x22] @ ''https://exam''))
       ''opml'' ''https://links.shikiryu.com/api/feeds?format=opml''
     = Inr {''https://example.org/?do=rss''}
   \<and> get_dynamic_feeds (\<lambda>d. Inl JSONDecodeError) Inr
       (\<lambda>u. IncompleteRead (''[{'' @ [CHR 0x22] @ ''url'' @ [CHR 0x22] @ '': '' @ [CHR 0x22] @ ''https://exam''))
       ''json'' ''https://links.shikiryu.com/api/feeds?format=json''
     = Inl JSONDecodeError"
proof -
  define partial where "partial = ''<outline xmlUrl='' @ [CHR 0x22] @ ''https://example.org/feed/atom'' @ [CHR 0x22]
        @ '' /><outline xmlUrl='' @ [CHR 0x22] @ ''https://exam''"
  define cut where "cut = ''[{'' @ [CHR 0x22] @ ''url'' @ [CHR 0x22] @ '': '' @ [CHR 0x22] @ ''https://exam''"
  define loads where "loads = (\<lambda>d::string. Inl JSONDecodeError :: error + json)"
  define dec where "dec = (Inr :: string \<Rightarrow> error + string)"
  define net where "net = (\<lambda>u::string. IncompleteRead partial)"
  define net' where "net' = (\<lambda>u::string. IncompleteRead cut)"
  have h: "net ''https://links.shikiryu.com/api/feeds?format=opml'' = IncompleteRead partial"
    by (simp add: net_def)
  have h': "net' ''https://links.shikiryu.com/api/feeds?format=json'' = IncompleteRead cut"
    by (simp add: net'_def)
  have d: "dec partial = Inr partial" by (simp add: dec_def)
  have l: "loads cut = Inl JSONDecodeError" by (simp add: loads_def)
  have f: "findall_xmlUrl partial = [''https://example.org/feed/atom'']"
    unfolding partial_def by code_simp
  have s: "sanitize_url ''https://example.org/feed/atom'' = Inr ''https://example.org/?do=rss''"
    by code_simp
  have a: "get_dynamic_feeds loads dec net ''opml'' ''https://links.shikiryu.com/api/feeds?format=opml''
             = Inr {''https://example.org/?do=rss''}"
    using get_dynamic_feeds_incomplete_read[where urlopen_read = net and partial = partial
        and url = "''https://links.shikiryu.com/api/feeds?format=opml''"
        and json_loads = loads and decode = dec and doc = partial, OF h,
        THEN conjunct2, THEN conjunct1] d
    by (simp add: f s)
  have b: "get_dynamic_feeds loads dec net' ''json'' ''https://links.shikiryu.com/api/feeds?format=json''
             = Inl JSONDecodeError"
    using get_dynamic_feeds_incomplete_read[where urlopen_read = net' and partial = cut
        and url = "''https://links.shikiryu.com/api/feeds?format=json''"
        and json_loads = loads and decode = dec and e = JSONDecodeError, OF h',
        THEN conjunct2, THEN conjunct2, THEN conjunct2, THEN conjunct1] l
    by simp
  from a b show ?thesis
    unfolding net_def net'_def partial_def cut_def loads_def dec_def by simp
qed

text \<open>
  Claim C7 as stated fails.  A read that ends early on a well-formed document with the one
  address \<open>//[\<close> does not return a set: the address is found, and \<open>sanitize_url\<close> raises
  \<open>ValueError\<close> on it, though nothing is wrong with the structure of the payload.
\<close>

theorem get_dynamic_feeds_incomplete_read_raises:
  "findall_xmlUrl (''<opml version='' @ [CHR 0x22] @ ''2.0'' @ [CHR 0x22] @ ''><body><outline xmlUrl=''
          @ [CHR 0x22] @ ''//['' @ [CHR 0x22] @ '' /></body></opml>'') = [''//['']
   \<and> get_dynamic_feeds (\<lambda>d. Inl JSONDecodeError) Inr
       (\<lambda>u. IncompleteRead (''<opml version='' @ [CHR 0x22] @ ''2.0'' @ [CHR 0x22] @ ''><body><outline xmlUrl=''
          @ [CHR 0x22] @ ''//['' @ [CHR 0x22] @ '' /></body></opml>''))
       ''opml'' ''https://links.shikiryu.com/api/feeds?format=opml''
     = Inl ValueError"
  by code_simp

section \<open>The doctest of line 81\<close>

text \<open>
  Claim C2.  The doctest of lines 81 and 82 expects
  \<open>sanitize_url("https://example.org/shaarli/feed/feed/rss")\<close> to be
  \<open>'https://example.org/shaarli/feed?do=rss'\<close>.  The loop of lines 96 to 98 removes
  both \<open>feed\<close> segments, so the function returns
  \<open>'https://example.org/shaarli?do=rss'\<close>, which is not the expected text.
\<close>

theorem sanitize_url_feed_feed_rss:
  "sanitize_url ''https://example.org/shaarli/feed/feed/rss''
     = Inr ''https://example.org/shaarli?do=rss''
   \<and> sanitize_url ''https://example.org/shaarli/feed/feed/rss''
     \<noteq> Inr ''https://example.org/shaarli/feed?do=rss''"
  by code_simp

end
